theory Spec2Isabelle
  imports Main "HOL-Library.AList" "HOL-Library.Sublist"
begin

section \<open>The mail provider's objects\<close>

text \<open>
  The server reads Outlook objects through COM. Reading an attribute of such an object
  either yields a value, or fails because the object has no such attribute (Python's
  \<^verbatim>\<open>AttributeError\<close>, the one failure that \<^verbatim>\<open>hasattr\<close> turns into
  \<^verbatim>\<open>False\<close>), or raises some other exception. An exception is represented by its
  message, the text that \<^verbatim>\<open>str(e)\<close> yields. Repeated reads of one attribute of
  one object give the same outcome.
\<close>

datatype 'a attr = Value 'a | Missing | Raises string

text \<open>\<^verbatim>\<open>obj.name\<close>: the value, or the exception as \<open>Inl\<close>.\<close>

fun getattr :: "string \<Rightarrow> 'a attr \<Rightarrow> string + 'a" where
  "getattr nm (Value v) = Inr v"
| "getattr nm Missing = Inl (''AttributeError: '' @ nm)"
| "getattr nm (Raises e) = Inl e"

text \<open>Sequencing of steps that may raise: the first exception ends the block.\<close>

fun bindE :: "string + 'a \<Rightarrow> ('a \<Rightarrow> string + 'b) \<Rightarrow> string + 'b" where
  "bindE (Inl e) f = Inl e"
| "bindE (Inr v) f = f v"

text \<open>\<^verbatim>\<open>x or ""\<close> on a string that may be \<^verbatim>\<open>None\<close>.\<close>

fun or_empty :: "string option \<Rightarrow> string" where
  "or_empty None = ''''"
| "or_empty (Some s) = s"

text \<open>
  \<^verbatim>\<open>str.lower\<close> belongs to the Python runtime: it lowers every cased letter of
  Unicode, by tables that are no part of this program. The functions below that call it
  take it as their first argument, named \<open>lower\<close>, and every statement about them holds
  for whatever function on strings it is. A string is the list of the text's characters,
  a character beyond the 8-bit range being held as its UTF-8 bytes;
  \<^verbatim>\<open>a in b\<close> on strings is the contiguous-substring test, which gives the same
  answer on the bytes as on the characters.

  \<open>ascii_lower\<close> is the lowering of the letters A to Z alone. It stands in for
  \<^verbatim>\<open>str.lower\<close> only in the concrete instances further down, whose texts are ASCII.
\<close>

definition lower_char :: "char \<Rightarrow> char" where
  "lower_char c =
     (case map_of (zip ''ABCDEFGHIJKLMNOPQRSTUVWXYZ'' ''abcdefghijklmnopqrstuvwxyz'') c of
        Some l \<Rightarrow> l
      | None \<Rightarrow> c)"

definition ascii_lower :: "string \<Rightarrow> string" where
  "ascii_lower s = map lower_char s"

definition str_in :: "string \<Rightarrow> string \<Rightarrow> bool" where
  "str_in a b = sublist a b"

text \<open>\<^verbatim>\<open>str(i)\<close> on an integer: its decimal digits, with a sign when negative.\<close>

definition digit_char :: "nat \<Rightarrow> char" where
  "digit_char d = ''0123456789'' ! d"

fun str_nat :: "nat \<Rightarrow> string" where
  "str_nat n = (if n < 10 then [digit_char n] else str_nat (n div 10) @ [digit_char (n mod 10)])"

declare str_nat.simps [simp del]

definition str_int :: "int \<Rightarrow> string" where
  "str_int i = (if i < 0 then CHR ''-'' # str_nat (nat (- i)) else str_nat (nat i))"

text \<open>
  A point in time is the number of microseconds on the naive local time line, so that
  \<^verbatim>\<open>datetime\<close> comparison is \<open><\<close> on integers and subtracting
  \<^verbatim>\<open>timedelta(days=d)\<close> subtracts \<open>d\<close> days' worth of microseconds.
\<close>

type_synonym datetime = int

definition timedelta_days :: "int \<Rightarrow> int" where
  "timedelta_days d = d * 86400000000"

record attachment =
  FileName :: "string attr"
  Size :: "int attr"

record item =
  Subject :: "string option attr"
  SenderName :: "string option attr"
  SenderEmailAddress :: "string option attr"
  ReceivedTime :: "datetime option attr"
  Body :: "string option attr"
  UnRead :: "bool attr"
  Importance :: "int attr"
  Attachments :: "attachment list attr"

text \<open>
  A folder has a name, its subfolders and its items. \<open>Items\<close> is the sequence in the
  order in which the provider enumerates it after
  \<^verbatim>\<open>folder_items.Sort("[ReceivedTime]", True)\<close>; the sorting itself is the
  provider's work.
\<close>

datatype folder = Folder (Name: string) (Folders: "folder list") (Items: "item list")

record namespace =
  GetDefaultFolder6 :: "string + folder"
  RootFolders :: "folder list"

record outlook =
  Dispatch :: "string + namespace"

section \<open>Connecting and resolving a folder\<close>

definition safe_connect_to_outlook :: "outlook \<Rightarrow> string + namespace" where
  "safe_connect_to_outlook env =
     (case Dispatch env of
        Inl dispatch_error \<Rightarrow> Inl (''Failed to connect to Outlook: '' @ dispatch_error)
      | Inr ns \<Rightarrow>
          (case GetDefaultFolder6 ns of
             Inl connectivity_error \<Rightarrow> Inl (''Inbox access failed: '' @ connectivity_error)
           | Inr inbox \<Rightarrow> Inr ns))"

definition name_is :: "(string \<Rightarrow> string) \<Rightarrow> string \<Rightarrow> folder \<Rightarrow> bool" where
  "name_is lower folder_name f = (lower (Name f) = lower folder_name)"

text \<open>The loop over the root folders, each followed by its subfolders.\<close>

fun find_in_roots :: "(string \<Rightarrow> string) \<Rightarrow> string \<Rightarrow> folder list \<Rightarrow> folder option" where
  "find_in_roots lower folder_name [] = None"
| "find_in_roots lower folder_name (f # fs) =
     (if name_is lower folder_name f then Some f
      else (case find (name_is lower folder_name) (Folders f) of
              Some subfolder \<Rightarrow> Some subfolder
            | None \<Rightarrow> find_in_roots lower folder_name fs))"

definition get_folder_by_name :: "(string \<Rightarrow> string) \<Rightarrow> namespace \<Rightarrow> string option \<Rightarrow> string + folder" where
  "get_folder_by_name lower ns folder_name =
     (if or_empty folder_name = [] then GetDefaultFolder6 ns
      else bindE (GetDefaultFolder6 ns) (\<lambda>inbox.
        case find (name_is lower (or_empty folder_name)) (Folders inbox) of
          Some f \<Rightarrow> Inr f
        | None \<Rightarrow>
            (case find_in_roots lower (or_empty folder_name) (RootFolders ns) of
               Some f \<Rightarrow> Inr f
             | None \<Rightarrow> Inl (''Folder '' @ [CHR 0x27] @ or_empty folder_name @ [CHR 0x27] @ '' not found''))))"

section \<open>The result cache and the tool results\<close>

text \<open>
  \<^verbatim>\<open>email_cache\<close> is a dictionary from integers to items, empty when the process
  starts. It is kept as an association list in insertion order: \<open>AList.update\<close> is the
  dictionary's item assignment, \<open>map_of\<close> its lookup and \<open>[]\<close> the cleared dictionary.
\<close>

type_synonym email_cache = "(int \<times> item) list"

definition initial_cache :: email_cache where
  "initial_cache = []"

definition MAX_DAYS :: int where
  "MAX_DAYS = 30"

text \<open>
  The dictionaries the tools return. \<open>received_time\<close> holds the time that the source
  renders with \<^verbatim>\<open>strftime("%Y-%m-%d %H:%M:%S")\<close>; \<open>None\<close> is the empty text
  that the detail record has for a message without a received time.
\<close>

record message_fields =
  subject :: string
  sender :: string
  sender_email :: string
  received_time :: "datetime option"
  read_status :: string
  has_attachments :: bool

record email_data = message_fields +
  email_id :: string

record attachment_info =
  filename :: string
  size_bytes :: int

record email_details = message_fields +
  body :: string
  importance :: int
  attachments :: "attachment_info list"

record listing =
  folder :: string
  total_emails :: nat
  emails :: "email_data list"

record search_listing = listing +
  search_term :: string

datatype 'a tool_result = Error string | Success 'a

section \<open>Listing and searching\<close>

text \<open>\<^verbatim>\<open>enumerate(xs, i)\<close>: the elements paired with their positions, counted from \<open>i\<close>.\<close>

fun enumerate_from :: "int \<Rightarrow> 'a list \<Rightarrow> (int \<times> 'a) list" where
  "enumerate_from i [] = []"
| "enumerate_from i (x # xs) = (i, x) # enumerate_from (i + 1) xs"

text \<open>
  The \<^verbatim>\<open>email_data\<close> dictionary that both tools build for an item; its attribute
  reads happen in the order of the dictionary literal.
\<close>

definition make_email_data :: "int \<Rightarrow> datetime \<Rightarrow> item \<Rightarrow> string + email_data" where
  "make_email_data i rt it =
     bindE (getattr ''Subject'' (Subject it)) (\<lambda>subj.
     bindE (getattr ''SenderName'' (SenderName it)) (\<lambda>sn.
     bindE (getattr ''SenderEmailAddress'' (SenderEmailAddress it)) (\<lambda>se.
     bindE (getattr ''UnRead'' (UnRead it)) (\<lambda>unread.
     bindE (getattr ''Attachments'' (Attachments it)) (\<lambda>atts.
       Inr \<lparr>subject = or_empty subj, sender = or_empty sn, sender_email = or_empty se,
            received_time = Some rt,
            read_status = (if \<not> unread then ''Read'' else ''Unread''),
            has_attachments = (length atts > 0),
            email_id = str_int i\<rparr>)))))"

text \<open>
  The loop of \<^verbatim>\<open>outlook_list_recent_emails\<close>. It returns the summaries, or the
  exception that left the loop, together with the cache as the loop left it.
\<close>

fun list_loop ::
  "datetime \<Rightarrow> (int \<times> item) list \<Rightarrow> email_cache \<Rightarrow> email_data list
     \<Rightarrow> (string + email_data list) \<times> email_cache" where
  "list_loop threshold_date [] cache emails_list = (Inr emails_list, cache)"
| "list_loop threshold_date ((i, it) # rest) cache emails_list =
     (case ReceivedTime it of
        Raises e \<Rightarrow> (Inl e, cache)
      | Missing \<Rightarrow> list_loop threshold_date rest cache emails_list
      | Value None \<Rightarrow> list_loop threshold_date rest cache emails_list
      | Value (Some rt) \<Rightarrow>
          if rt < threshold_date then (Inr emails_list, cache)
          else (case make_email_data i rt it of
                  Inl e \<Rightarrow> (Inl e, cache)
                | Inr email_data \<Rightarrow>
                    list_loop threshold_date rest (AList.update i it cache)
                      (emails_list @ [email_data])))"

definition days_message :: string where
  "days_message = ''Days must be between 1 and '' @ str_int MAX_DAYS"

definition outlook_list_recent_emails ::
  "(string \<Rightarrow> string) \<Rightarrow> outlook \<Rightarrow> datetime \<Rightarrow> int \<Rightarrow> string option \<Rightarrow> email_cache
     \<Rightarrow> listing tool_result \<times> email_cache" where
  "outlook_list_recent_emails lower env now days folder_name cache =
     (if days < 1 \<or> days > MAX_DAYS then (Error days_message, cache)
      else
        (case safe_connect_to_outlook env of
           Inl e \<Rightarrow> (Error e, cache)
         | Inr ns \<Rightarrow>
             (case get_folder_by_name lower ns folder_name of
                Inl e \<Rightarrow> (Error e, cache)
              | Inr fld \<Rightarrow>
                  (case list_loop (now - timedelta_days days) (enumerate_from 1 (Items fld)) [] [] of
                     (Inl e, cache') \<Rightarrow> (Error e, cache')
                   | (Inr emails_list, cache') \<Rightarrow>
                       (Success \<lparr>folder = Name fld, total_emails = length emails_list,
                                 emails = emails_list\<rparr>, cache')))))"

text \<open>
  The condition of the search: the lowered term in the lowered subject, sender name or
  body, read from left to right until one of them holds.
\<close>

definition item_matches :: "(string \<Rightarrow> string) \<Rightarrow> string \<Rightarrow> item \<Rightarrow> string + bool" where
  "item_matches lower search_term_lower it =
     bindE (getattr ''Subject'' (Subject it)) (\<lambda>subj.
       if str_in search_term_lower (lower (or_empty subj)) then Inr True
       else bindE (getattr ''SenderName'' (SenderName it)) (\<lambda>sn.
         if str_in search_term_lower (lower (or_empty sn)) then Inr True
         else bindE (getattr ''Body'' (Body it)) (\<lambda>b.
           Inr (str_in search_term_lower (lower (or_empty b))))))"

text \<open>The body of the \<^verbatim>\<open>try\<close> inside the search loop, up to the cache write.\<close>

definition search_try :: "(string \<Rightarrow> string) \<Rightarrow> string \<Rightarrow> int \<Rightarrow> datetime \<Rightarrow> item \<Rightarrow> string + email_data option" where
  "search_try lower search_term_lower i rt it =
     bindE (item_matches lower search_term_lower it) (\<lambda>m.
       if m then bindE (make_email_data i rt it) (\<lambda>email_data. Inr (Some email_data))
       else Inr None)"

fun search_loop ::
  "(string \<Rightarrow> string) \<Rightarrow> datetime \<Rightarrow> string \<Rightarrow> (int \<times> item) list \<Rightarrow> email_cache \<Rightarrow> email_data list
     \<Rightarrow> (string + email_data list) \<times> email_cache" where
  "search_loop lower threshold_date search_term_lower [] cache emails_list = (Inr emails_list, cache)"
| "search_loop lower threshold_date search_term_lower ((i, it) # rest) cache emails_list =
     (case ReceivedTime it of
        Raises e \<Rightarrow> (Inl e, cache)
      | Missing \<Rightarrow> search_loop lower threshold_date search_term_lower rest cache emails_list
      | Value None \<Rightarrow> search_loop lower threshold_date search_term_lower rest cache emails_list
      | Value (Some rt) \<Rightarrow>
          if rt < threshold_date then (Inr emails_list, cache)
          else (case search_try lower search_term_lower i rt it of
                  Inl email_error \<Rightarrow>
                    search_loop lower threshold_date search_term_lower rest cache emails_list
                | Inr None \<Rightarrow>
                    search_loop lower threshold_date search_term_lower rest cache emails_list
                | Inr (Some email_data) \<Rightarrow>
                    search_loop lower threshold_date search_term_lower rest (AList.update i it cache)
                      (emails_list @ [email_data])))"

definition outlook_search_emails ::
  "(string \<Rightarrow> string) \<Rightarrow> outlook \<Rightarrow> datetime \<Rightarrow> string \<Rightarrow> int \<Rightarrow> string option \<Rightarrow> email_cache
     \<Rightarrow> search_listing tool_result \<times> email_cache" where
  "outlook_search_emails lower env now term days folder_name cache =
     (if term = [] then (Error ''Search term cannot be empty'', cache)
      else if days < 1 \<or> days > MAX_DAYS then (Error days_message, cache)
      else
        (case safe_connect_to_outlook env of
           Inl e \<Rightarrow> (Error e, cache)
         | Inr ns \<Rightarrow>
             (case get_folder_by_name lower ns folder_name of
                Inl e \<Rightarrow> (Error e, cache)
              | Inr fld \<Rightarrow>
                  (case search_loop lower (now - timedelta_days days) (lower term)
                          (enumerate_from 1 (Items fld)) [] [] of
                     (Inl e, cache') \<Rightarrow> (Error e, cache')
                   | (Inr emails_list, cache') \<Rightarrow>
                       (Success \<lparr>folder = Name fld, total_emails = length emails_list,
                                 emails = emails_list, search_term = term\<rparr>, cache')))))"

section \<open>Message detail\<close>

text \<open>
  \<^verbatim>\<open>email_item.Attachments(i)\<close>: the provider's collection is indexed from 1; an
  index outside it raises.
\<close>

definition attachment_at :: "attachment list \<Rightarrow> int \<Rightarrow> string + attachment" where
  "attachment_at atts i =
     (if 1 \<le> i \<and> i \<le> int (length atts) then Inr (atts ! nat (i - 1))
      else Inl ''Array index out of bounds.'')"

fun attachments_loop ::
  "attachment list \<Rightarrow> int list \<Rightarrow> attachment_info list \<Rightarrow> string + attachment_info list" where
  "attachments_loop atts [] acc = Inr acc"
| "attachments_loop atts (i # rest) acc =
     (case attachment_at atts i of
        Inl e \<Rightarrow> Inl e
      | Inr a \<Rightarrow>
          (case getattr ''FileName'' (FileName a) of
             Inl e \<Rightarrow> Inl e
           | Inr fn \<Rightarrow>
               (case getattr ''Size'' (Size a) of
                  Inl e \<Rightarrow> Inl e
                | Inr sz \<Rightarrow>
                    attachments_loop atts rest (acc @ [\<lparr>filename = fn, size_bytes = sz\<rparr>]))))"

text \<open>\<^verbatim>\<open>x.Importance if hasattr(x, 'Importance') else 1\<close>.\<close>

fun importance_or_default :: "int attr \<Rightarrow> string + int" where
  "importance_or_default (Value v) = Inr v"
| "importance_or_default Missing = Inr 1"
| "importance_or_default (Raises e) = Inl e"

definition email_details_of :: "item \<Rightarrow> string + email_details" where
  "email_details_of email_item =
     bindE (getattr ''Subject'' (Subject email_item)) (\<lambda>subj.
     bindE (getattr ''SenderName'' (SenderName email_item)) (\<lambda>sn.
     bindE (getattr ''SenderEmailAddress'' (SenderEmailAddress email_item)) (\<lambda>se.
     bindE (getattr ''ReceivedTime'' (ReceivedTime email_item)) (\<lambda>rt.
     bindE (getattr ''Body'' (Body email_item)) (\<lambda>b.
     bindE (getattr ''UnRead'' (UnRead email_item)) (\<lambda>unread.
     bindE (importance_or_default (Importance email_item)) (\<lambda>imp.
     bindE (getattr ''Attachments'' (Attachments email_item)) (\<lambda>atts.
     bindE (if length atts > 0 then attachments_loop atts [1 .. int (length atts)] []
            else Inr []) (\<lambda>infos.
       Inr \<lparr>subject = or_empty subj, sender = or_empty sn, sender_email = or_empty se,
            received_time = rt,
            read_status = (if \<not> unread then ''Read'' else ''Unread''),
            has_attachments = (length atts > 0),
            body = or_empty b, importance = imp, attachments = infos\<rparr>)))))))))"

definition no_listing_message :: string where
  "no_listing_message =
     ''No emails have been listed recently. Use list_recent_emails or search_emails first.''"

definition not_found_message :: "int \<Rightarrow> string" where
  "not_found_message email_number =
     ''Email #'' @ str_int email_number @ '' not found in the current listing.''"

definition outlook_get_email_by_number :: "email_cache \<Rightarrow> int \<Rightarrow> email_details tool_result" where
  "outlook_get_email_by_number cache email_number =
     (if cache = [] then Error no_listing_message
      else
        (case map_of cache email_number of
           None \<Rightarrow> Error (not_found_message email_number)
         | Some email_item \<Rightarrow>
             (case email_details_of email_item of
                Inl e \<Rightarrow> Error e
              | Inr email_details \<Rightarrow> Success email_details)))"

section \<open>What one pass of either loop does\<close>

text \<open>
  Both loops treat an enumerated item in one of four ways: they stop at it, skip it, leave
  with an exception, or keep it (cache it under its position and append its summary).
  \<open>list_step\<close> and \<open>search_step\<close> name the way each loop treats an item, and \<open>scan\<close> is
  the loop over such steps; \<open>list_loop\<close> and \<open>search_loop\<close> are shown below to be
  instances of it.
\<close>

datatype step = Stop | Skip | Fail string | Keep email_data

fun is_Keep :: "step \<Rightarrow> bool" where
  "is_Keep (Keep d) = True"
| "is_Keep _ = False"

fun is_Fail :: "step \<Rightarrow> bool" where
  "is_Fail (Fail e) = True"
| "is_Fail _ = False"

fun goes_on :: "step \<Rightarrow> bool" where
  "goes_on Stop = False"
| "goes_on (Fail e) = False"
| "goes_on _ = True"

fun list_step :: "datetime \<Rightarrow> int \<times> item \<Rightarrow> step" where
  "list_step threshold_date (i, it) =
     (case ReceivedTime it of
        Raises e \<Rightarrow> Fail e
      | Missing \<Rightarrow> Skip
      | Value None \<Rightarrow> Skip
      | Value (Some rt) \<Rightarrow>
          if rt < threshold_date then Stop
          else (case make_email_data i rt it of Inl e \<Rightarrow> Fail e | Inr d \<Rightarrow> Keep d))"

fun search_step :: "(string \<Rightarrow> string) \<Rightarrow> datetime \<Rightarrow> string \<Rightarrow> int \<times> item \<Rightarrow> step" where
  "search_step lower threshold_date search_term_lower (i, it) =
     (case ReceivedTime it of
        Raises e \<Rightarrow> Fail e
      | Missing \<Rightarrow> Skip
      | Value None \<Rightarrow> Skip
      | Value (Some rt) \<Rightarrow>
          if rt < threshold_date then Stop
          else (case search_try lower search_term_lower i rt it of
                  Inl e \<Rightarrow> Skip
                | Inr None \<Rightarrow> Skip
                | Inr (Some d) \<Rightarrow> Keep d))"

fun scan ::
  "(int \<times> item \<Rightarrow> step) \<Rightarrow> (int \<times> item) list \<Rightarrow> email_cache \<Rightarrow> email_data list
     \<Rightarrow> (string + email_data list) \<times> email_cache" where
  "scan f [] cache emails_list = (Inr emails_list, cache)"
| "scan f (p # rest) cache emails_list =
     (case f p of
        Stop \<Rightarrow> (Inr emails_list, cache)
      | Skip \<Rightarrow> scan f rest cache emails_list
      | Fail e \<Rightarrow> (Inl e, cache)
      | Keep d \<Rightarrow> scan f rest (AList.update (fst p) (snd p) cache) (emails_list @ [d]))"

text \<open>
  The items a pass keeps: those kept among the ones enumerated before the pass stops or
  fails. \<open>kept_data\<close> are their summaries.
\<close>

definition kept :: "(int \<times> item \<Rightarrow> step) \<Rightarrow> (int \<times> item) list \<Rightarrow> (int \<times> item) list" where
  "kept f ps = filter (\<lambda>p. is_Keep (f p)) (takeWhile (\<lambda>p. goes_on (f p)) ps)"

fun data_of :: "step \<Rightarrow> email_data list" where
  "data_of (Keep d) = [d]"
| "data_of _ = []"

definition kept_data :: "(int \<times> item \<Rightarrow> step) \<Rightarrow> (int \<times> item) list \<Rightarrow> email_data list" where
  "kept_data f ps = concat (map (\<lambda>p. data_of (f p)) (takeWhile (\<lambda>p. goes_on (f p)) ps))"

text \<open>How a pass ends: with the exception of the first failing item, if it reaches one.\<close>

definition failure :: "(int \<times> item \<Rightarrow> step) \<Rightarrow> (int \<times> item) list \<Rightarrow> string option" where
  "failure f ps =
     (case dropWhile (\<lambda>p. goes_on (f p)) ps of
        [] \<Rightarrow> None
      | p # rest \<Rightarrow> (case f p of Fail e \<Rightarrow> Some e | _ \<Rightarrow> None))"

section \<open>Notions used in the statements\<close>

text \<open>Connecting and then resolving the folder, as both tools do before they touch the cache.\<close>

definition resolve :: "(string \<Rightarrow> string) \<Rightarrow> outlook \<Rightarrow> string option \<Rightarrow> string + folder" where
  "resolve lower env folder_name =
     bindE (safe_connect_to_outlook env) (\<lambda>ns. get_folder_by_name lower ns folder_name)"

text \<open>The received time of an item that has one.\<close>

definition received :: "item \<Rightarrow> datetime option" where
  "received it = (case ReceivedTime it of Value (Some rt) \<Rightarrow> Some rt | _ \<Rightarrow> None)"



definition time_raises :: "item \<Rightarrow> bool" where
  "time_raises it = (case ReceivedTime it of Raises e \<Rightarrow> True | _ \<Rightarrow> False)"





fun is_Value :: "'a attr \<Rightarrow> bool" where
  "is_Value (Value v) = True"
| "is_Value _ = False"

text \<open>Every attribute that the detail lookup reads can be read.\<close>

definition details_readable :: "item \<Rightarrow> bool" where
  "details_readable it \<longleftrightarrow>
     is_Value (Subject it) \<and> is_Value (SenderName it) \<and> is_Value (SenderEmailAddress it)
       \<and> is_Value (ReceivedTime it) \<and> is_Value (Body it) \<and> is_Value (UnRead it)
       \<and> (case Importance it of Raises e \<Rightarrow> False | _ \<Rightarrow> True)
       \<and> (case Attachments it of
             Value atts \<Rightarrow> list_all (\<lambda>a. is_Value (FileName a) \<and> is_Value (Size a)) atts
           | _ \<Rightarrow> False)"

text \<open>What the detail lookup answers once the cache has produced the item.\<close>

definition detail_result :: "item \<Rightarrow> email_details tool_result" where
  "detail_result it = (case email_details_of it of Inl e \<Rightarrow> Error e | Inr d \<Rightarrow> Success d)"

text \<open>
  The attributes that the detail lookup reads and the summary does not (the body, the
  importance, the file name and size of every attachment) can be read.
\<close>

definition rest_readable :: "item \<Rightarrow> bool" where
  "rest_readable it \<longleftrightarrow>
     is_Value (Body it)
       \<and> (case Importance it of Raises e \<Rightarrow> False | _ \<Rightarrow> True)
       \<and> (case Attachments it of
             Value atts \<Rightarrow> list_all (\<lambda>a. is_Value (FileName a) \<and> is_Value (Size a)) atts
           | _ \<Rightarrow> True)"

text \<open>
  A summary resolves in a cache when its id is the decimal text of exactly one integer,
  the cache holds under that integer the item from which the summary was built, and the
  detail lookup with that integer answers with the detail of that item: it returns a
  detail record whenever the attributes that only the lookup reads can be read, and a
  detail record it returns agrees with the summary on every field they share.
\<close>

definition summary_resolves :: "email_cache \<Rightarrow> email_data \<Rightarrow> bool" where
  "summary_resolves c s \<longleftrightarrow>
     (\<exists>k it rt. email_id s = str_int k \<and> (\<forall>j. str_int j = email_id s \<longrightarrow> j = k)
        \<and> map_of c k = Some it
        \<and> ReceivedTime it = Value (Some rt) \<and> make_email_data k rt it = Inr s
        \<and> outlook_get_email_by_number c k = detail_result it
        \<and> (rest_readable it \<longrightarrow> (\<exists>d. outlook_get_email_by_number c k = Success d))
        \<and> (\<forall>d. outlook_get_email_by_number c k = Success d \<longrightarrow>
              subject d = subject s \<and> sender d = sender s \<and> sender_email d = sender_email s
              \<and> received_time d = received_time s \<and> read_status d = read_status s
              \<and> has_attachments d = has_attachments s))"

text \<open>
  The summaries and the cache entries of one generation lie at positions of a folder's
  item sequence when, one by one and in order, the entry's key is a position of the
  sequence counted from 1, the entry's item is the item at that position, and the
  summary is the one built from that item under that key.
\<close>

definition at_positions :: "item list \<Rightarrow> email_data list \<Rightarrow> email_cache \<Rightarrow> bool" where
  "at_positions items es c \<longleftrightarrow>
     list_all2 (\<lambda>s p. 1 \<le> fst p \<and> fst p \<le> int (length items)
                  \<and> items ! nat (fst p - 1) = snd p
                  \<and> (\<exists>rt. ReceivedTime (snd p) = Value (Some rt)
                        \<and> make_email_data (fst p) rt (snd p) = Inr s)) es c"

text \<open>
  A cache is keyed by the ids of a list of summaries when it has one entry per summary,
  in the same order, under the integer that the summary's id names; the keys grow
  strictly and start at 1 or later; the detail lookup finds the stored item under every
  key, and answers every other integer with a lookup failure.
\<close>

definition cache_keyed_by :: "email_data list \<Rightarrow> email_cache \<Rightarrow> bool" where
  "cache_keyed_by es c \<longleftrightarrow>
     length c = length es \<and> map email_id es = map (\<lambda>p. str_int (fst p)) c
     \<and> sorted_wrt (<) (map fst c) \<and> (\<forall>p \<in> set c. 1 \<le> fst p)
     \<and> (\<forall>p \<in> set c. outlook_get_email_by_number c (fst p) = detail_result (snd p))
     \<and> (\<forall>k. k \<notin> fst ` set c \<longrightarrow>
           outlook_get_email_by_number c k =
             Error (if c = [] then no_listing_message else not_found_message k))"

subsection \<open>A small mailbox for the concrete instances\<close>

definition message :: "string \<Rightarrow> string \<Rightarrow> datetime \<Rightarrow> item" where
  "message subj txt rt =
     \<lparr>Subject = Value (Some subj), SenderName = Value (Some ''Ann''),
      SenderEmailAddress = Value (Some ''ann@example.org''), ReceivedTime = Value (Some rt),
      Body = Value (Some txt), UnRead = Value False, Importance = Value 1,
      Attachments = Value []\<rparr>"

definition mailbox :: "item list \<Rightarrow> outlook" where
  "mailbox items =
     \<lparr>Dispatch = Inr \<lparr>GetDefaultFolder6 = Inr (Folder ''Inbox'' [] items), RootFolders = []\<rparr>\<rparr>"

text \<open>Day \<open>d\<close> before the moment \<open>today\<close>.\<close>

definition today :: datetime where
  "today = timedelta_days 100"

definition days_ago :: "int \<Rightarrow> datetime" where
  "days_ago d = today - timedelta_days d"

text \<open>
  The scenario of the specification: five messages received 0, 1, 8, 9 and 20 days ago.
\<close>

definition scenario :: "item list" where
  "scenario = [message ''a'' ''x'' (days_ago 0), message ''b'' ''x'' (days_ago 1),
     message ''c'' ''x'' (days_ago 8), message ''d'' ''x'' (days_ago 9), message ''e'' ''x'' (days_ago 20)]"

text \<open>
  A message whose subject cannot be read; a message about taxes whose sender name cannot
  be read, so that the match succeeds on the subject and the summary then fails; and a
  folder that holds both between two readable messages about taxes.
\<close>

definition unreadable :: "datetime \<Rightarrow> item" where
  "unreadable rt = (message ''?'' ''x'' rt)\<lparr>Subject := Raises ''The operation failed.''\<rparr>"

definition sender_unreadable :: "datetime \<Rightarrow> item" where
  "sender_unreadable rt =
     (message ''Tax due'' ''x'' rt)\<lparr>SenderName := Raises ''The operation failed.''\<rparr>"

definition four_with_unreadable :: "item list" where
  "four_with_unreadable =
     [message ''Tax form'' ''x'' (days_ago 0), unreadable (days_ago 1),
      sender_unreadable (days_ago 2), message ''re: taxes'' ''x'' (days_ago 3)]"

text \<open>A message with two attachments.\<close>

definition with_attachments :: "item" where
  "with_attachments =
     (message ''report'' ''see attached'' (days_ago 0))
       \<lparr>Attachments := Value [\<lparr>FileName = Value ''a.pdf'', Size = Value 1200\<rparr>,
                              \<lparr>FileName = Value ''b.png'', Size = Value 34\<rparr>]\<rparr>"

text \<open>A folder with two messages, only the second about taxes.\<close>

definition two_messages :: "item list" where
  "two_messages = [message ''hello'' ''x'' (days_ago 0), message ''Tax form'' ''y'' (days_ago 1)]"


section \<open>The loops as passes over steps\<close>

lemma list_loop_scan: "list_loop thr ps c es = scan (list_step thr) ps c es"
  by (induction ps arbitrary: c es) (auto split: attr.splits option.splits sum.splits)

lemma search_loop_scan: "search_loop lower thr t ps c es = scan (search_step lower thr t) ps c es"
  by (induction ps arbitrary: c es) (auto split: attr.splits option.splits sum.splits)

lemma kept_Nil [simp]: "kept f [] = []"
  by (simp add: kept_def)

lemma kept_Cons:
  "kept f (p # ps) =
     (case f p of Keep d \<Rightarrow> p # kept f ps | Skip \<Rightarrow> kept f ps | _ \<Rightarrow> [])"
  by (simp add: kept_def split: step.splits)

lemma kept_data_Nil [simp]: "kept_data f [] = []"
  by (simp add: kept_data_def)

lemma kept_data_Cons:
  "kept_data f (p # ps) =
     (case f p of Keep d \<Rightarrow> d # kept_data f ps | Skip \<Rightarrow> kept_data f ps | _ \<Rightarrow> [])"
  by (simp add: kept_data_def split: step.splits)

lemma failure_Nil [simp]: "failure f [] = None"
  by (simp add: failure_def)

lemma failure_Cons:
  "failure f (p # ps) =
     (case f p of Keep d \<Rightarrow> failure f ps | Skip \<Rightarrow> failure f ps | Fail e \<Rightarrow> Some e | Stop \<Rightarrow> None)"
  by (simp add: failure_def split: step.splits)

lemma scan_char:
  "scan f ps c es =
     ((case failure f ps of Some e \<Rightarrow> Inl e | None \<Rightarrow> Inr (es @ kept_data f ps)),
      fold (\<lambda>p. AList.update (fst p) (snd p)) (kept f ps) c)"
  by (induction ps arbitrary: c es)
     (simp_all add: kept_Cons kept_data_Cons failure_Cons split: step.splits option.splits)

section \<open>Positions and the cache\<close>

lemma update_fresh: "k \<notin> fst ` set c \<Longrightarrow> AList.update k v c = c @ [(k, v)]"
  by (induction c) auto

lemma fold_update_fresh:
  "distinct (map fst (c @ ks)) \<Longrightarrow> fold (\<lambda>p. AList.update (fst p) (snd p)) ks c = c @ ks"
proof (induction ks arbitrary: c)
  case Nil
  then show ?case by simp
next
  case (Cons p ks)
  have fresh: "fst p \<notin> fst ` set c" using Cons.prems by auto
  have "distinct (map fst ((c @ [p]) @ ks))" using Cons.prems by simp
  from Cons.IH [OF this] show ?case
    by (simp add: update_fresh [OF fresh])
qed

lemma map_fst_enumerate_from:
  "map fst (enumerate_from i xs) = map (\<lambda>j. i + int j) [0..<length xs]"
proof (induction xs arbitrary: i)
  case Nil
  then show ?case by simp
next
  case (Cons x xs)
  have "map (\<lambda>j. i + int j) [0..<Suc (length xs)] = i # map (\<lambda>j. i + 1 + int j) [0..<length xs]"
    by (simp add: upt_conv_Cons map_Suc_upt [symmetric] del: upt_Suc)
  then show ?case using Cons.IH [of "i + 1"] by simp
qed

lemma sorted_keys_enumerate_from: "sorted_wrt (<) (map fst (enumerate_from i xs))"
  by (induction xs arbitrary: i) (auto simp: map_fst_enumerate_from)

lemma in_enumerate_from:
  "(k, x) \<in> set (enumerate_from i xs) \<longleftrightarrow> i \<le> k \<and> k < i + int (length xs) \<and> xs ! nat (k - i) = x"
proof (induction xs arbitrary: i)
  case Nil
  then show ?case by auto
next
  case (Cons y ys)
  show ?case
  proof (cases "k = i")
    case True
    then show ?thesis using Cons.IH [of "i + 1"] by auto
  next
    case False
    have "nat (k - i) = Suc (nat (k - (i + 1)))" if "i < k" using that by simp
    then show ?thesis using False Cons.IH [of "i + 1"] by auto
  qed
qed

lemma enumerate_from_append:
  "enumerate_from i (xs @ ys) = enumerate_from i xs @ enumerate_from (i + int (length xs)) ys"
  by (induction xs arbitrary: i) (simp_all add: add.assoc)

lemma kept_subset: "set (kept f ps) \<subseteq> set ps"
  by (auto simp: kept_def dest: set_takeWhileD)

lemma sorted_keys_kept:
  "sorted_wrt (<) (map fst ps) \<Longrightarrow> sorted_wrt (<) (map fst (kept f ps))"
  unfolding kept_def sorted_wrt_map
  by (intro sorted_wrt_filter sorted_wrt_takeWhile)

lemma kept_all_Keep: "p \<in> set (kept f ps) \<Longrightarrow> is_Keep (f p)"
  by (simp add: kept_def)

lemma kept_data_aligned: "list_all2 (\<lambda>p d. f p = Keep d) (kept f ps) (kept_data f ps)"
  by (induction ps) (simp_all add: kept_Cons kept_data_Cons split: step.splits)

lemma strict_sorted_distinct: "sorted_wrt (<) (ks :: int list) \<Longrightarrow> distinct ks"
  by (induction ks) auto

lemma kept_enumerated_cache:
  "fold (\<lambda>p. AList.update (fst p) (snd p)) (kept f (enumerate_from i xs)) [] = kept f (enumerate_from i xs)"
  using fold_update_fresh [of "[]" "kept f (enumerate_from i xs)"]
    strict_sorted_distinct [OF sorted_keys_kept [OF sorted_keys_enumerate_from]]
  by simp

section \<open>Decimal rendering\<close>

lemma days_message_text: "days_message = ''Days must be between 1 and 30''"
  by (simp add: days_message_def MAX_DAYS_def str_int_def str_nat.simps digit_char_def)

lemma digit_char_inj: "a < 10 \<Longrightarrow> b < 10 \<Longrightarrow> digit_char a = digit_char b \<Longrightarrow> a = b"
  unfolding digit_char_def
  by (subst (asm) nth_eq_iff_index_eq) simp_all

lemma str_nat_nonempty: "str_nat n \<noteq> []"
  by (subst str_nat.simps) simp

lemma str_nat_snoc: "str_nat n = str_nat m \<Longrightarrow> n = m"
proof (induction n arbitrary: m rule: str_nat.induct)
  case (1 n)
  show ?case
  proof (cases "n < 10")
    case True
    then have n: "str_nat n = [digit_char n]" by (subst str_nat.simps) simp
    show ?thesis
    proof (cases "m < 10")
      case m: True
      then have "str_nat m = [digit_char m]" by (subst str_nat.simps) simp
      with n "1.prems" True m show ?thesis by (auto dest: digit_char_inj)
    next
      case False
      then have "str_nat m = str_nat (m div 10) @ [digit_char (m mod 10)]"
        by (subst str_nat.simps) simp
      with n "1.prems" have "str_nat (m div 10) = []" by simp
      then show ?thesis using str_nat_nonempty by blast
    qed
  next
    case False
    then have n: "str_nat n = str_nat (n div 10) @ [digit_char (n mod 10)]"
      by (subst str_nat.simps) simp
    show ?thesis
    proof (cases "m < 10")
      case True
      then have "str_nat m = [digit_char m]" by (subst str_nat.simps) simp
      with n "1.prems" have "str_nat (n div 10) = []" by simp
      then show ?thesis using str_nat_nonempty by blast
    next
      case m: False
      then have "str_nat m = str_nat (m div 10) @ [digit_char (m mod 10)]"
        by (subst str_nat.simps) simp
      with n "1.prems" have eq: "str_nat (n div 10) = str_nat (m div 10)"
        and dg: "digit_char (n mod 10) = digit_char (m mod 10)" by simp_all
      from "1.IH" [OF False eq] have "n div 10 = m div 10" .
      moreover have "n mod 10 = m mod 10" using dg by (auto intro: digit_char_inj)
      ultimately show ?thesis by (metis div_mult_mod_eq)
    qed
  qed
qed

lemma str_nat_no_minus: "CHR ''-'' \<notin> set (str_nat n)"
proof (induction n rule: str_nat.induct)
  case (1 n)
  have d: "digit_char k \<noteq> CHR ''-''" if "k < 10" for k
  proof -
    have "digit_char k \<in> set ''0123456789''" unfolding digit_char_def using that by (intro nth_mem) simp
    then show ?thesis by auto
  qed
  show ?case
  proof (cases "n < 10")
    case True
    then show ?thesis using d [of n] by (subst str_nat.simps) auto
  next
    case False
    then show ?thesis using d [of "n mod 10"] "1.IH" by (subst str_nat.simps) auto
  qed
qed

lemma str_int_inj: "str_int a = str_int b \<Longrightarrow> a = b"
proof -
  assume eq: "str_int a = str_int b"
  have hd_neg: "hd (str_int i) = CHR ''-''" if "i < 0" for i using that by (simp add: str_int_def)
  have hd_pos: "hd (str_int i) \<noteq> CHR ''-''" if "\<not> i < 0" for i
    using that str_nat_no_minus [of "nat i"] str_nat_nonempty [of "nat i"]
    by (cases "str_nat (nat i)") (auto simp: str_int_def)
  have same: "(a < 0) = (b < 0)" using eq hd_neg hd_pos by metis
  show "a = b"
  proof (cases "a < 0")
    case True
    with same eq have "str_nat (nat (- a)) = str_nat (nat (- b))" by (simp add: str_int_def)
    then have "nat (- a) = nat (- b)" by (rule str_nat_snoc)
    with True same show ?thesis by simp
  next
    case False
    with same eq have "str_nat (nat a) = str_nat (nat b)" by (simp add: str_int_def)
    then have "nat a = nat b" by (rule str_nat_snoc)
    with False same show ?thesis by simp
  qed
qed

section \<open>The two tools in terms of one pass\<close>

lemma list_call:
  assumes "resolve lower env fn = Inr fld" "1 \<le> days" "days \<le> 30"
  shows "outlook_list_recent_emails lower env now days fn c =
     ((case failure (list_step (now - timedelta_days days)) (enumerate_from 1 (Items fld)) of
         Some e \<Rightarrow> Error e
       | None \<Rightarrow> Success \<lparr>folder = Name fld,
            total_emails = length (kept_data (list_step (now - timedelta_days days)) (enumerate_from 1 (Items fld))),
            emails = kept_data (list_step (now - timedelta_days days)) (enumerate_from 1 (Items fld))\<rparr>),
      kept (list_step (now - timedelta_days days)) (enumerate_from 1 (Items fld)))"
  using assms
  by (auto simp: outlook_list_recent_emails_def resolve_def MAX_DAYS_def list_loop_scan scan_char
      kept_enumerated_cache split: sum.splits option.splits)

lemma list_call_fails:
  assumes "resolve lower env fn = Inl e" "1 \<le> days" "days \<le> 30"
  shows "outlook_list_recent_emails lower env now days fn c = (Error e, c)"
  using assms
  by (auto simp: outlook_list_recent_emails_def resolve_def MAX_DAYS_def split: sum.splits)

lemma list_call_invalid:
  assumes "days < 1 \<or> 30 < days"
  shows "outlook_list_recent_emails lower env now days fn c = (Error days_message, c)"
  using assms by (auto simp: outlook_list_recent_emails_def MAX_DAYS_def)

lemma search_call:
  assumes "resolve lower env fn = Inr fld" "1 \<le> days" "days \<le> 30" "term \<noteq> []"
  shows "outlook_search_emails lower env now term days fn c =
     ((case failure (search_step lower (now - timedelta_days days) (lower term)) (enumerate_from 1 (Items fld)) of
         Some e \<Rightarrow> Error e
       | None \<Rightarrow> Success \<lparr>folder = Name fld,
            total_emails = length (kept_data (search_step lower (now - timedelta_days days) (lower term)) (enumerate_from 1 (Items fld))),
            emails = kept_data (search_step lower (now - timedelta_days days) (lower term)) (enumerate_from 1 (Items fld)),
            search_term = term\<rparr>),
      kept (search_step lower (now - timedelta_days days) (lower term)) (enumerate_from 1 (Items fld)))"
  using assms
  by (auto simp: outlook_search_emails_def resolve_def MAX_DAYS_def search_loop_scan scan_char
      kept_enumerated_cache split: sum.splits option.splits)

lemma search_call_fails:
  assumes "resolve lower env fn = Inl e" "1 \<le> days" "days \<le> 30" "term \<noteq> []"
  shows "outlook_search_emails lower env now term days fn c = (Error e, c)"
  using assms
  by (auto simp: outlook_search_emails_def resolve_def MAX_DAYS_def split: sum.splits)

lemma search_call_invalid:
  assumes "term = [] \<or> days < 1 \<or> 30 < days"
  shows "outlook_search_emails lower env now term days fn c =
           (Error (if term = [] then ''Search term cannot be empty'' else days_message), c)"
  using assms by (auto simp: outlook_search_emails_def MAX_DAYS_def)

lemma list_success:
  assumes "outlook_list_recent_emails lower env now days fn c = (Success r, c')"
  obtains fld where "resolve lower env fn = Inr fld" "1 \<le> days" "days \<le> 30"
    "failure (list_step (now - timedelta_days days)) (enumerate_from 1 (Items fld)) = None"
    "emails r = kept_data (list_step (now - timedelta_days days)) (enumerate_from 1 (Items fld))"
    "total_emails r = length (emails r)" "folder r = Name fld"
    "c' = kept (list_step (now - timedelta_days days)) (enumerate_from 1 (Items fld))"
proof -
  have d: "1 \<le> days \<and> days \<le> 30"
    using assms list_call_invalid [of days lower env now fn c] by fastforce
  obtain fld where f: "resolve lower env fn = Inr fld"
    using assms d list_call_fails [of lower env fn _ days now c] by (cases "resolve lower env fn") auto
  show thesis
    using assms list_call [OF f, of days now c] d that [OF f]
    by (auto split: option.splits)
qed

lemma search_success:
  assumes "outlook_search_emails lower env now term days fn c = (Success r, c')"
  obtains fld where "resolve lower env fn = Inr fld" "1 \<le> days" "days \<le> 30" "term \<noteq> []"
    "failure (search_step lower (now - timedelta_days days) (lower term)) (enumerate_from 1 (Items fld)) = None"
    "emails r = kept_data (search_step lower (now - timedelta_days days) (lower term)) (enumerate_from 1 (Items fld))"
    "total_emails r = length (emails r)" "folder r = Name fld" "search_term r = term"
    "c' = kept (search_step lower (now - timedelta_days days) (lower term)) (enumerate_from 1 (Items fld))"
proof -
  have d: "1 \<le> days \<and> days \<le> 30 \<and> term \<noteq> []"
    using assms search_call_invalid [of "term" days lower env now fn c] by fastforce
  obtain fld where f: "resolve lower env fn = Inr fld"
    using assms d search_call_fails [of lower env fn _ days "term" now c] by (cases "resolve lower env fn") auto
  show thesis
    using assms search_call [OF f, of days "term" now c] d that [OF f]
    by (auto split: option.splits)
qed

section \<open>Evaluation of concrete calls\<close>

lemmas run_defs =
  outlook_list_recent_emails_def outlook_search_emails_def outlook_get_email_by_number_def
  safe_connect_to_outlook_def get_folder_by_name_def resolve_def mailbox_def message_def
  MAX_DAYS_def days_message_text timedelta_days_def today_def days_ago_def
  make_email_data_def item_matches_def search_try_def email_details_of_def
  str_in_def sublist_Cons_right ascii_lower_def lower_char_def str_int_def str_nat.simps digit_char_def
  no_listing_message_def not_found_message_def initial_cache_def

section \<open>Argument validation\<close>

text \<open>
  C7. A search with the empty search term returns the error result
  "Search term cannot be empty", whatever the other arguments are, and leaves the cache
  as it was; it never returns a success result.
\<close>

theorem search_empty_term_error:
  "outlook_search_emails lower env now [] days folder_name cache =
     (Error ''Search term cannot be empty'', cache)"
  by (simp add: outlook_search_emails_def)

text \<open>
  C6. For every \<open>days\<close> below 1 or above 30 both tools return an error result (the
  listing with the message "Days must be between 1 and 30", the search with that message
  or, for an empty term, with the message about the term) and leave the cache as it was.
  For \<open>days\<close> equal to 1 or to 30 the validation passes: once the folder is resolved,
  the result is the one that the enumeration of the folder's items yields.
\<close>

theorem days_out_of_range_error:
  "(days < 1 \<or> 30 < days \<longrightarrow>
      outlook_list_recent_emails lower env now days fn c = (Error ''Days must be between 1 and 30'', c)
      \<and> outlook_search_emails lower env now kw days fn c =
          (Error (if kw = [] then ''Search term cannot be empty''
                  else ''Days must be between 1 and 30''), c))
   \<and> ((days = 1 \<or> days = 30) \<and> resolve lower env fn = Inr fld \<longrightarrow>
      fst (outlook_list_recent_emails lower env now days fn c) =
        (case fst (list_loop (now - timedelta_days days) (enumerate_from 1 (Items fld)) [] []) of
           Inl e \<Rightarrow> Error e
         | Inr es \<Rightarrow> Success \<lparr>folder = Name fld, total_emails = length es, emails = es\<rparr>)
      \<and> (kw \<noteq> [] \<longrightarrow>
          fst (outlook_search_emails lower env now kw days fn c) =
            (case fst (search_loop lower (now - timedelta_days days) (lower kw)
                        (enumerate_from 1 (Items fld)) [] []) of
               Inl e \<Rightarrow> Error e
             | Inr es \<Rightarrow> Success \<lparr>folder = Name fld, total_emails = length es, emails = es,
                                    search_term = kw\<rparr>)))"
proof (intro conjI impI)
  assume "days < 1 \<or> 30 < days"
  then show "outlook_list_recent_emails lower env now days fn c = (Error ''Days must be between 1 and 30'', c)"
    using list_call_invalid [of days lower env now fn c] by (simp add: days_message_text)
next
  assume "days < 1 \<or> 30 < days"
  then show "outlook_search_emails lower env now kw days fn c =
          (Error (if kw = [] then ''Search term cannot be empty''
                  else ''Days must be between 1 and 30''), c)"
    using search_call_invalid [of "kw" days lower env now fn c] by (simp add: days_message_text)
next
  assume "(days = 1 \<or> days = 30) \<and> resolve lower env fn = Inr fld"
  then show "fst (outlook_list_recent_emails lower env now days fn c) =
        (case fst (list_loop (now - timedelta_days days) (enumerate_from 1 (Items fld)) [] []) of
           Inl e \<Rightarrow> Error e
         | Inr es \<Rightarrow> Success \<lparr>folder = Name fld, total_emails = length es, emails = es\<rparr>)"
    by (auto simp: outlook_list_recent_emails_def resolve_def MAX_DAYS_def split: sum.splits prod.splits)
next
  assume "(days = 1 \<or> days = 30) \<and> resolve lower env fn = Inr fld" and "kw \<noteq> []"
  then show "fst (outlook_search_emails lower env now kw days fn c) =
            (case fst (search_loop lower (now - timedelta_days days) (lower kw)
                        (enumerate_from 1 (Items fld)) [] []) of
               Inl e \<Rightarrow> Error e
             | Inr es \<Rightarrow> Success \<lparr>folder = Name fld, total_emails = length es, emails = es,
                                    search_term = kw\<rparr>)"
    by (auto simp: outlook_search_emails_def resolve_def MAX_DAYS_def split: sum.splits prod.splits)
qed

theorem days_out_of_range_error_witness:
  "outlook_list_recent_emails ascii_lower (mailbox []) today 0 None [] = (Error ''Days must be between 1 and 30'', [])
   \<and> outlook_search_emails ascii_lower (mailbox []) today ''x'' 31 None [] = (Error ''Days must be between 1 and 30'', [])
   \<and> resolve ascii_lower (mailbox [message ''hi'' ''x'' today]) None = Inr (Folder ''Inbox'' [] [message ''hi'' ''x'' today])
   \<and> fst (outlook_list_recent_emails ascii_lower (mailbox [message ''hi'' ''x'' today]) today 30 None []) =
       Success \<lparr>folder = ''Inbox'', total_emails = 1,
         emails = [\<lparr>subject = ''hi'', sender = ''Ann'', sender_email = ''ann@example.org'',
                    received_time = Some today, read_status = ''Read'', has_attachments = False,
                    email_id = ''1''\<rparr>]\<rparr>
   \<and> fst (outlook_search_emails ascii_lower (mailbox [message ''hi'' ''x'' today]) today ''X'' 1 None []) =
       Success \<lparr>folder = ''Inbox'', total_emails = 1,
         emails = [\<lparr>subject = ''hi'', sender = ''Ann'', sender_email = ''ann@example.org'',
                    received_time = Some today, read_status = ''Read'', has_attachments = False,
                    email_id = ''1''\<rparr>],
         search_term = ''X''\<rparr>"
  using days_out_of_range_error [where lower = ascii_lower and days = 0 and env = "mailbox []" and now = today
      and fn = None and c = "[]" and kw = "''x''"]
    days_out_of_range_error [where lower = ascii_lower and days = 31 and env = "mailbox []" and now = today
      and fn = None and c = "[]" and kw = "''x''"]
    days_out_of_range_error [where lower = ascii_lower and days = 30 and env = "mailbox [message ''hi'' ''x'' today]"
      and now = today and fn = None and c = "[]" and kw = "''X''"
      and fld = "Folder ''Inbox'' [] [message ''hi'' ''x'' today]"]
    days_out_of_range_error [where lower = ascii_lower and days = 1 and env = "mailbox [message ''hi'' ''x'' today]"
      and now = today and fn = None and c = "[]" and kw = "''X''"
      and fld = "Folder ''Inbox'' [] [message ''hi'' ''x'' today]"]
  by (simp add: run_defs)

section \<open>The cache across calls\<close>

lemma resolve_InrD:
  "resolve lower env fn = Inr fld \<Longrightarrow>
     \<exists>ns. safe_connect_to_outlook env = Inr ns \<and> get_folder_by_name lower ns fn = Inr fld"
  by (cases "safe_connect_to_outlook env") (simp_all add: resolve_def)

lemma scan_stop:
  "f p = Stop \<Longrightarrow> scan f (ps @ p # qs) c es = scan f ps c es"
  by (induction ps arbitrary: c es) (simp_all split: step.splits)

lemma list_step_old:
  "ReceivedTime x = Value (Some rt) \<Longrightarrow> rt < thr \<Longrightarrow> list_step thr (i, x) = Stop"
  by simp

lemma search_step_old:
  "ReceivedTime x = Value (Some rt) \<Longrightarrow> rt < thr \<Longrightarrow> search_step lower thr t (i, x) = Stop"
  by simp

text \<open>
  C5. With the cache as it is when the process starts, the detail lookup returns the
  "no prior listing" error result for every number. With a cache that holds entries but
  none under the number, it returns the "not found in the current listing" error result,
  and the two messages differ. Both are returned as error results.
\<close>

theorem lookup_failures_distinguished:
  "outlook_get_email_by_number initial_cache n = Error no_listing_message
   \<and> (c \<noteq> [] \<and> map_of c n = None \<longrightarrow>
        outlook_get_email_by_number c n = Error (not_found_message n))
   \<and> not_found_message n \<noteq> no_listing_message"
  by (simp add: outlook_get_email_by_number_def initial_cache_def not_found_message_def
      no_listing_message_def)

theorem lookup_failures_distinguished_witness:
  "[(1::int, message ''hi'' ''x'' today)] \<noteq> [] \<and> map_of [(1::int, message ''hi'' ''x'' today)] 2 = None
   \<and> outlook_get_email_by_number [] 2 =
       Error ''No emails have been listed recently. Use list_recent_emails or search_emails first.''
   \<and> outlook_get_email_by_number [(1, message ''hi'' ''x'' today)] 2 =
       Error ''Email #2 not found in the current listing.''"
  using lookup_failures_distinguished [where n = 2 and c = "[(1, message ''hi'' ''x'' today)]"]
  by (simp add: run_defs)

text \<open>
  C2, as stated, fails: a listing call that fails argument validation returns its error
  and leaves the previous generation in the cache, where the detail lookup still finds it.
\<close>

theorem stale_cache_survives_invalid_call_counterexample:
  "outlook_list_recent_emails ascii_lower (mailbox []) today 0 None [(1, message ''hi'' ''x'' today)] =
     (Error ''Days must be between 1 and 30'', [(1, message ''hi'' ''x'' today)])
   \<and> outlook_get_email_by_number
        (snd (outlook_list_recent_emails ascii_lower (mailbox []) today 0 None [(1, message ''hi'' ''x'' today)])) 1 =
      detail_result (message ''hi'' ''x'' today)"
  by (simp add: run_defs detail_result_def)

text \<open>
  C2, amended. The cache is cleared after the arguments are validated, the connection is
  made and the folder is resolved. For every call that gets that far, the cache after the
  call is what the loop builds from the empty cache, and each of its entries is an item
  of the resolved folder under its position: no entry of the previous generation
  survives, also when the enumeration then fails. A call that fails validation,
  connection or folder resolution leaves the cache as it was.
\<close>

theorem cache_cleared_once_folder_resolved:
  "(1 \<le> days \<and> days \<le> 30 \<and> resolve lower env fn = Inr fld \<longrightarrow>
      snd (outlook_list_recent_emails lower env now days fn c) =
        snd (list_loop (now - timedelta_days days) (enumerate_from 1 (Items fld)) [] [])
      \<and> set (snd (outlook_list_recent_emails lower env now days fn c)) \<subseteq> set (enumerate_from 1 (Items fld))
      \<and> (kw \<noteq> [] \<longrightarrow>
          snd (outlook_search_emails lower env now kw days fn c) =
            snd (search_loop lower (now - timedelta_days days) (lower kw) (enumerate_from 1 (Items fld)) [] [])
          \<and> set (snd (outlook_search_emails lower env now kw days fn c)) \<subseteq> set (enumerate_from 1 (Items fld))))
   \<and> (days < 1 \<or> 30 < days \<or> resolve lower env fn = Inl e \<longrightarrow>
      snd (outlook_list_recent_emails lower env now days fn c) = c
      \<and> snd (outlook_search_emails lower env now kw days fn c) = c)
   \<and> (kw = [] \<longrightarrow> snd (outlook_search_emails lower env now kw days fn c) = c)"
proof (intro conjI impI)
  assume a: "1 \<le> days \<and> days \<le> 30 \<and> resolve lower env fn = Inr fld"
  then have l: "snd (outlook_list_recent_emails lower env now days fn c) =
      kept (list_step (now - timedelta_days days)) (enumerate_from 1 (Items fld))"
    using list_call [of lower env fn fld days now c] by simp
  then show "snd (outlook_list_recent_emails lower env now days fn c) =
        snd (list_loop (now - timedelta_days days) (enumerate_from 1 (Items fld)) [] [])"
    by (simp add: list_loop_scan scan_char kept_enumerated_cache)
  show "set (snd (outlook_list_recent_emails lower env now days fn c)) \<subseteq> set (enumerate_from 1 (Items fld))"
    using l kept_subset by simp
  assume k: "kw \<noteq> []"
  have s: "snd (outlook_search_emails lower env now kw days fn c) =
      kept (search_step lower (now - timedelta_days days) (lower kw)) (enumerate_from 1 (Items fld))"
    using a k search_call [of lower env fn fld days kw now c] by simp
  then show "snd (outlook_search_emails lower env now kw days fn c) =
        snd (search_loop lower (now - timedelta_days days) (lower kw) (enumerate_from 1 (Items fld)) [] [])"
    by (simp add: search_loop_scan scan_char kept_enumerated_cache)
  show "set (snd (outlook_search_emails lower env now kw days fn c)) \<subseteq> set (enumerate_from 1 (Items fld))"
    using s kept_subset by simp
next
  assume a: "days < 1 \<or> 30 < days \<or> resolve lower env fn = Inl e"
  show "snd (outlook_list_recent_emails lower env now days fn c) = c"
  proof (cases "days < 1 \<or> 30 < days")
    case True
    then show ?thesis using list_call_invalid [of days lower env now fn c] by simp
  next
    case False
    with a show ?thesis using list_call_fails [of lower env fn e days now c] by simp
  qed
  show "snd (outlook_search_emails lower env now kw days fn c) = c"
  proof (cases "kw = [] \<or> days < 1 \<or> 30 < days")
    case True
    then show ?thesis using search_call_invalid [of kw days lower env now fn c] by simp
  next
    case False
    with a show ?thesis using search_call_fails [of lower env fn e days kw now c] by simp
  qed
next
  assume "kw = []"
  then show "snd (outlook_search_emails lower env now kw days fn c) = c"
    using search_call_invalid [of kw days lower env now fn c] by simp
qed

theorem cache_cleared_once_folder_resolved_witness:
  "resolve ascii_lower (mailbox [message ''new'' ''x'' today]) None = Inr (Folder ''Inbox'' [] [message ''new'' ''x'' today])
   \<and> snd (outlook_list_recent_emails ascii_lower (mailbox [message ''new'' ''x'' today]) today 7 None
           [(1, message ''old'' ''y'' 0), (2, message ''older'' ''y'' 0)]) =
       [(1, message ''new'' ''x'' today)]
   \<and> snd (outlook_search_emails ascii_lower (mailbox [message ''new'' ''x'' today]) today ''zzz'' 7 None
           [(1, message ''old'' ''y'' 0), (2, message ''older'' ''y'' 0)]) = []
   \<and> resolve ascii_lower (mailbox [message ''new'' ''x'' today]) (Some ''Archive'') =
        Inl (''Folder '' @ [CHR 0x27] @ ''Archive'' @ [CHR 0x27] @ '' not found'')
   \<and> snd (outlook_list_recent_emails ascii_lower (mailbox [message ''new'' ''x'' today]) today 7 (Some ''Archive'')
           [(1, message ''old'' ''y'' 0)]) = [(1, message ''old'' ''y'' 0)]
   \<and> snd (outlook_search_emails ascii_lower (mailbox [message ''new'' ''x'' today]) today [] 7 None
           [(1, message ''old'' ''y'' 0)]) = [(1, message ''old'' ''y'' 0)]"
  using cache_cleared_once_folder_resolved [where lower = ascii_lower and days = 7 and env = "mailbox [message ''new'' ''x'' today]"
      and fn = None and fld = "Folder ''Inbox'' [] [message ''new'' ''x'' today]" and now = today
      and kw = "''zzz''" and c = "[(1, message ''old'' ''y'' 0), (2, message ''older'' ''y'' 0)]"]
    cache_cleared_once_folder_resolved [where lower = ascii_lower and days = 7 and env = "mailbox [message ''new'' ''x'' today]"
      and fn = "Some ''Archive''" and now = today and kw = "[]" and c = "[(1, message ''old'' ''y'' 0)]"
      and e = "''Folder '' @ [CHR 0x27] @ ''Archive'' @ [CHR 0x27] @ '' not found''"]
    cache_cleared_once_folder_resolved [where lower = ascii_lower and days = 7 and env = "mailbox [message ''new'' ''x'' today]"
      and fn = None and now = today and kw = "[]" and c = "[(1, message ''old'' ''y'' 0)]"]
  by (simp add: run_defs)

section \<open>The early exit\<close>

lemma list_loop_stops:
  assumes "ReceivedTime x = Value (Some rt)" "rt < thr"
  shows "list_loop thr (enumerate_from i (pre @ x # post)) c es = list_loop thr (enumerate_from i pre) c es"
  using assms by (simp add: list_loop_scan enumerate_from_append scan_stop)

lemma search_loop_stops:
  assumes "ReceivedTime x = Value (Some rt)" "rt < thr"
  shows "search_loop lower thr t (enumerate_from i (pre @ x # post)) c es =
         search_loop lower thr t (enumerate_from i pre) c es"
  using assms by (simp add: search_loop_scan enumerate_from_append scan_stop)

lemma list_resolved:
  assumes "resolve lower env fn = Inr fld"
  shows "outlook_list_recent_emails lower env now days fn c =
     (if days < 1 \<or> days > 30 then (Error days_message, c)
      else (case list_loop (now - timedelta_days days) (enumerate_from 1 (Items fld)) [] [] of
              (Inl e, c') \<Rightarrow> (Error e, c')
            | (Inr es, c') \<Rightarrow>
                (Success \<lparr>folder = Name fld, total_emails = length es, emails = es\<rparr>, c')))"
  using resolve_InrD [OF assms]
  by (auto simp: outlook_list_recent_emails_def MAX_DAYS_def)

lemma search_resolved:
  assumes "resolve lower env fn = Inr fld"
  shows "outlook_search_emails lower env now kw days fn c =
     (if kw = [] then (Error ''Search term cannot be empty'', c)
      else if days < 1 \<or> days > 30 then (Error days_message, c)
      else (case search_loop lower (now - timedelta_days days) (lower kw) (enumerate_from 1 (Items fld)) [] [] of
              (Inl e, c') \<Rightarrow> (Error e, c')
            | (Inr es, c') \<Rightarrow>
                (Success \<lparr>folder = Name fld, total_emails = length es, emails = es,
                          search_term = kw\<rparr>, c')))"
  using resolve_InrD [OF assms]
  by (auto simp: outlook_search_emails_def MAX_DAYS_def)

text \<open>
  C3. Enumeration stops at an item whose received time is strictly before the threshold
  (now minus \<open>days\<close>): the result and the cache of a listing or a search on a folder
  are those of the same call on a folder that holds only the items in front of that item.
  The item and every item after it thus contribute no summary and no cache entry,
  whatever they contain. This holds for every item sequence, sorted or not.
\<close>

theorem enumeration_stops_at_old_item:
  assumes "resolve lower env fn = Inr fld" and "Items fld = pre @ x # post"
    and "ReceivedTime x = Value (Some rt)" and "rt < now - timedelta_days days"
    and "resolve lower env' fn' = Inr fld'" and "Name fld' = Name fld" and "Items fld' = pre"
  shows "outlook_list_recent_emails lower env now days fn c = outlook_list_recent_emails lower env' now days fn' c
       \<and> outlook_search_emails lower env now kw days fn c = outlook_search_emails lower env' now kw days fn' c"
proof -
  have l: "list_loop (now - timedelta_days days) (enumerate_from 1 (Items fld)) [] [] =
           list_loop (now - timedelta_days days) (enumerate_from 1 (Items fld')) [] []"
    using list_loop_stops [OF assms(3,4)] assms(2,7) by simp
  have s: "search_loop lower (now - timedelta_days days) (lower kw) (enumerate_from 1 (Items fld)) [] [] =
           search_loop lower (now - timedelta_days days) (lower kw) (enumerate_from 1 (Items fld')) [] []"
    using search_loop_stops [OF assms(3,4)] assms(2,7) by simp
  show ?thesis
    by (simp only: list_resolved [OF assms(1)] list_resolved [OF assms(5)]
        search_resolved [OF assms(1)] search_resolved [OF assms(5)] l s assms(6))
qed

theorem enumeration_stops_at_old_item_witness:
  "resolve ascii_lower (mailbox scenario) None = Inr (Folder ''Inbox'' [] scenario)
   \<and> scenario = [message ''a'' ''x'' (days_ago 0), message ''b'' ''x'' (days_ago 1)]
        @ message ''c'' ''x'' (days_ago 8) # [message ''d'' ''x'' (days_ago 9), message ''e'' ''x'' (days_ago 20)]
   \<and> ReceivedTime (message ''c'' ''x'' (days_ago 8)) = Value (Some (days_ago 8))
   \<and> days_ago 8 < today - timedelta_days 7
   \<and> map email_id (case fst (outlook_list_recent_emails ascii_lower (mailbox scenario) today 7 None []) of
         Success r \<Rightarrow> emails r | Error e \<Rightarrow> []) = [''1'', ''2'']
   \<and> map fst (snd (outlook_list_recent_emails ascii_lower (mailbox scenario) today 7 None [])) = [1, 2]
   \<and> map email_id (case fst (outlook_search_emails ascii_lower (mailbox scenario) today ''X'' 7 None []) of
         Success r \<Rightarrow> emails r | Error e \<Rightarrow> []) = [''1'', ''2'']
   \<and> map fst (snd (outlook_search_emails ascii_lower (mailbox scenario) today ''X'' 7 None [])) = [1, 2]"
proof -
  let ?pre = "[message ''a'' ''x'' (days_ago 0), message ''b'' ''x'' (days_ago 1)]"
  have r: "resolve ascii_lower (mailbox scenario) None = Inr (Folder ''Inbox'' [] scenario)"
    by (simp add: run_defs)
  have r': "resolve ascii_lower (mailbox ?pre) None = Inr (Folder ''Inbox'' [] ?pre)"
    by (simp add: run_defs)
  have i: "Items (Folder ''Inbox'' [] scenario) = ?pre @ message ''c'' ''x'' (days_ago 8)
        # [message ''d'' ''x'' (days_ago 9), message ''e'' ''x'' (days_ago 20)]"
    by (simp add: scenario_def)
  have t: "ReceivedTime (message ''c'' ''x'' (days_ago 8)) = Value (Some (days_ago 8))"
    by (simp add: message_def)
  have o: "days_ago 8 < today - timedelta_days 7"
    by (simp add: run_defs)
  have e: "outlook_list_recent_emails ascii_lower (mailbox scenario) today 7 None [] =
             outlook_list_recent_emails ascii_lower (mailbox ?pre) today 7 None []
         \<and> outlook_search_emails ascii_lower (mailbox scenario) today ''X'' 7 None [] =
             outlook_search_emails ascii_lower (mailbox ?pre) today ''X'' 7 None []"
    using enumeration_stops_at_old_item [OF r i t o r'] by simp
  have "map email_id (case fst (outlook_list_recent_emails ascii_lower (mailbox ?pre) today 7 None []) of
         Success r \<Rightarrow> emails r | Error e \<Rightarrow> []) = [''1'', ''2'']"
       "map fst (snd (outlook_list_recent_emails ascii_lower (mailbox ?pre) today 7 None [])) = [1, 2]"
       "map email_id (case fst (outlook_search_emails ascii_lower (mailbox ?pre) today ''X'' 7 None []) of
         Success r \<Rightarrow> emails r | Error e \<Rightarrow> []) = [''1'', ''2'']"
       "map fst (snd (outlook_search_emails ascii_lower (mailbox ?pre) today ''X'' 7 None [])) = [1, 2]"
    by (simp_all add: run_defs)
  with r i t o e show ?thesis by (simp add: scenario_def)
qed

section \<open>Unreadable items during a search\<close>

lemma scan_skip:
  "f p = Skip \<Longrightarrow> scan f (ps @ p # qs) c es = scan f (ps @ qs) c es"
  by (induction ps arbitrary: c es) (simp_all split: step.splits)

lemma failure_SomeD: "failure f ps = Some e \<Longrightarrow> \<exists>p \<in> set ps. f p = Fail e"
  by (induction ps) (auto simp: failure_Cons split: step.splits)

lemma search_step_FailD: "search_step lower thr t p = Fail e \<Longrightarrow> ReceivedTime (snd p) = Raises e"
  by (cases p) (auto split: attr.splits option.splits if_splits sum.splits)

lemma search_step_raises:
  assumes "received x = Some rt" "thr \<le> rt" "search_try lower t i rt x = Inl e"
  shows "search_step lower thr t (i, x) = Skip"
  using assms
  by (auto simp: received_def split: attr.splits option.splits)

lemma raise_in_match_is_raise_in_try:
  "item_matches lower t x = Inl e \<Longrightarrow> search_try lower t i rt x = Inl e"
  by (simp add: search_try_def)

lemma keys_enumerate_from:
  "fst ` set (enumerate_from i xs) = {i ..< i + int (length xs)}"
proof -
  have "fst ` set (enumerate_from i xs) = set (map fst (enumerate_from i xs))" by simp
  also have "\<dots> = (\<lambda>j. i + int j) ` {0 ..< length xs}" by (simp add: map_fst_enumerate_from)
  also have "\<dots> = {i ..< i + int (length xs)}"
  proof (intro equalityI subsetI)
    fix k assume "k \<in> {i ..< i + int (length xs)}"
    then have "k = i + int (nat (k - i))" "nat (k - i) < length xs" by auto
    then show "k \<in> (\<lambda>j. i + int j) ` {0 ..< length xs}" by (metis atLeastLessThan_iff image_eqI zero_le)
  qed auto
  finally show ?thesis .
qed

lemma snd_enumerate_from: "p \<in> set (enumerate_from i xs) \<Longrightarrow> snd p \<in> set xs"
  by (induction xs arbitrary: i) auto

text \<open>
  C8. In a search that has passed validation and resolved its folder, an item within the
  time window on which an attribute read inside the loop's \<^verbatim>\<open>try\<close> raises (the
  subject, sender name or body while the match is evaluated, or an attribute of the
  summary after the match) is skipped: the call's result is the one that the loop yields
  on all other items at their own positions, the item's position is no cache key, and
  the exception does not reach the caller, since the call returns a success result
  unless the received time of some other item cannot be read.
\<close>

theorem unreadable_item_skipped_in_search:
  assumes "resolve lower env fn = Inr fld" and "1 \<le> days" and "days \<le> 30" and "kw \<noteq> []"
    and "Items fld = pre @ x # post"
    and "received x = Some rt" and "now - timedelta_days days \<le> rt"
    and "search_try lower (lower kw) (int (length pre) + 1) rt x = Inl e"
  shows "outlook_search_emails lower env now kw days fn c =
          (case search_loop lower (now - timedelta_days days) (lower kw)
                  (enumerate_from 1 pre @ enumerate_from (int (length pre) + 2) post) [] [] of
             (Inl e, c') \<Rightarrow> (Error e, c')
           | (Inr es, c') \<Rightarrow>
               (Success \<lparr>folder = Name fld, total_emails = length es, emails = es,
                         search_term = kw\<rparr>, c'))
       \<and> int (length pre) + 1 \<notin> fst ` set (snd (outlook_search_emails lower env now kw days fn c))
       \<and> ((\<forall>it \<in> set pre \<union> set post. \<not> time_raises it) \<longrightarrow>
            (\<exists>r c'. outlook_search_emails lower env now kw days fn c = (Success r, c')))"
proof -
  let ?f = "search_step lower (now - timedelta_days days) (lower kw)"
  let ?ps = "enumerate_from 1 pre @ enumerate_from (int (length pre) + 2) post"
  have sk: "?f (1 + int (length pre), x) = Skip"
    using search_step_raises [OF assms(6,7), of lower "lower kw" "1 + int (length pre)" e] assms(8)
    by (simp add: add.commute)
  have en: "enumerate_from 1 (Items fld) =
      enumerate_from 1 pre @ (1 + int (length pre), x) # enumerate_from (int (length pre) + 2) post"
    by (simp add: assms(5) enumerate_from_append add.commute)
  have loop: "search_loop lower (now - timedelta_days days) (lower kw) (enumerate_from 1 (Items fld)) [] [] =
      search_loop lower (now - timedelta_days days) (lower kw) ?ps [] []"
    unfolding search_loop_scan en
    using scan_skip [of ?f "(1 + int (length pre), x)"] sk by simp
  have call: "outlook_search_emails lower env now kw days fn c =
      (case search_loop lower (now - timedelta_days days) (lower kw) ?ps [] [] of
         (Inl e, c') \<Rightarrow> (Error e, c')
       | (Inr es, c') \<Rightarrow>
           (Success \<lparr>folder = Name fld, total_emails = length es, emails = es,
                     search_term = kw\<rparr>, c'))"
    using assms(2,3,4) by (simp add: search_resolved [OF assms(1)] loop)
  have cache: "snd (outlook_search_emails lower env now kw days fn c) =
      fold (\<lambda>p. AList.update (fst p) (snd p)) (kept ?f ?ps) []"
    unfolding call by (simp add: search_loop_scan scan_char split: option.splits)
  have srt: "sorted_wrt (<) (map fst ?ps)"
    using sorted_keys_enumerate_from [of 1 "pre @ x # post"]
    by (simp add: enumerate_from_append add.commute sorted_wrt_append)
  have cache': "snd (outlook_search_emails lower env now kw days fn c) = kept ?f ?ps"
    unfolding cache
    using fold_update_fresh [of "[]" "kept ?f ?ps"]
      strict_sorted_distinct [OF sorted_keys_kept [OF srt]] by simp
  have "fst ` set (kept ?f ?ps) \<subseteq> fst ` set ?ps" using kept_subset by blast
  also have "\<dots> = {1 ..< 1 + int (length pre)} \<union> {int (length pre) + 2 ..< int (length pre) + 2 + int (length post)}"
    by (simp add: image_Un keys_enumerate_from)
  finally have nokey: "int (length pre) + 1 \<notin> fst ` set (snd (outlook_search_emails lower env now kw days fn c))"
    unfolding cache' by auto
  have ok: "\<exists>r c'. outlook_search_emails lower env now kw days fn c = (Success r, c')"
    if nr: "\<forall>it \<in> set pre \<union> set post. \<not> time_raises it"
  proof -
    have "failure ?f ?ps = None"
    proof (cases "failure ?f ?ps")
      case (Some m)
      then obtain p where p: "p \<in> set ?ps" "?f p = Fail m" using failure_SomeD by blast
      then have "ReceivedTime (snd p) = Raises m" using search_step_FailD by blast
      then have "time_raises (snd p)" by (simp add: time_raises_def)
      moreover have "snd p \<in> set pre \<union> set post"
        using p(1) by (auto dest: snd_enumerate_from)
      then have "\<not> time_raises (snd p)" using nr by blast
      ultimately show ?thesis by simp
    qed simp
    then show ?thesis unfolding call by (simp add: search_loop_scan scan_char)
  qed
  from call nokey ok show ?thesis by blast
qed

theorem unreadable_item_skipped_in_search_witness:
  "resolve ascii_lower (mailbox four_with_unreadable) None = Inr (Folder ''Inbox'' [] four_with_unreadable)
   \<and> four_with_unreadable =
        [message ''Tax form'' ''x'' (days_ago 0), unreadable (days_ago 1)]
          @ sender_unreadable (days_ago 2) # [message ''re: taxes'' ''x'' (days_ago 3)]
   \<and> received (sender_unreadable (days_ago 2)) = Some (days_ago 2)
   \<and> today - timedelta_days 7 \<le> days_ago 2
   \<and> item_matches ascii_lower (ascii_lower ''TAX'') (sender_unreadable (days_ago 2)) = Inr True
   \<and> search_try ascii_lower (ascii_lower ''TAX'') 3 (days_ago 2) (sender_unreadable (days_ago 2)) =
        Inl ''The operation failed.''
   \<and> search_try ascii_lower (ascii_lower ''TAX'') 2 (days_ago 1) (unreadable (days_ago 1)) =
        Inl ''The operation failed.''
   \<and> map email_id (case fst (outlook_search_emails ascii_lower (mailbox four_with_unreadable) today ''TAX'' 7 None []) of
         Success r \<Rightarrow> emails r | Error e \<Rightarrow> []) = [''1'', ''4'']
   \<and> map fst (snd (outlook_search_emails ascii_lower (mailbox four_with_unreadable) today ''TAX'' 7 None [])) = [1, 4]
   \<and> (\<exists>r c'. outlook_search_emails ascii_lower (mailbox four_with_unreadable) today ''TAX'' 7 None [] = (Success r, c'))"
proof -
  let ?pre = "[message ''Tax form'' ''x'' (days_ago 0), unreadable (days_ago 1)]"
  let ?post = "[message ''re: taxes'' ''x'' (days_ago 3)]"
  have r: "resolve ascii_lower (mailbox four_with_unreadable) None = Inr (Folder ''Inbox'' [] four_with_unreadable)"
    by (simp add: run_defs)
  have i: "Items (Folder ''Inbox'' [] four_with_unreadable) =
        ?pre @ sender_unreadable (days_ago 2) # ?post"
    by (simp add: four_with_unreadable_def)
  have rc: "received (sender_unreadable (days_ago 2)) = Some (days_ago 2)"
    by (simp add: received_def sender_unreadable_def message_def)
  have w: "today - timedelta_days 7 \<le> days_ago 2"
    by (simp add: run_defs)
  have m: "item_matches ascii_lower (ascii_lower ''TAX'') (sender_unreadable (days_ago 2)) = Inr True"
    by (simp add: sender_unreadable_def run_defs)
  have t: "search_try ascii_lower (ascii_lower ''TAX'') (int (length ?pre) + 1) (days_ago 2)
             (sender_unreadable (days_ago 2)) = Inl ''The operation failed.''"
    by (simp add: sender_unreadable_def run_defs)
  have t3: "search_try ascii_lower (ascii_lower ''TAX'') 3 (days_ago 2)
             (sender_unreadable (days_ago 2)) = Inl ''The operation failed.''"
    using t by simp
  have t2: "search_try ascii_lower (ascii_lower ''TAX'') 2 (days_ago 1) (unreadable (days_ago 1)) =
        Inl ''The operation failed.''"
    by (simp add: unreadable_def run_defs)
  have nr: "\<forall>it \<in> set ?pre \<union> set ?post. \<not> time_raises it"
    by (simp add: time_raises_def message_def unreadable_def)
  have ev: "search_loop ascii_lower (today - timedelta_days 7) (ascii_lower ''TAX'')
         (enumerate_from 1 ?pre @ enumerate_from (int (length ?pre) + 2) ?post) [] [] =
       (Inr [\<lparr>subject = ''Tax form'', sender = ''Ann'', sender_email = ''ann@example.org'',
              received_time = Some (days_ago 0), read_status = ''Read'', has_attachments = False,
              email_id = ''1''\<rparr>,
             \<lparr>subject = ''re: taxes'', sender = ''Ann'', sender_email = ''ann@example.org'',
              received_time = Some (days_ago 3), read_status = ''Read'', has_attachments = False,
              email_id = ''4''\<rparr>],
        [(1, message ''Tax form'' ''x'' (days_ago 0)), (4, message ''re: taxes'' ''x'' (days_ago 3))])"
    by (simp add: unreadable_def run_defs)
  have d: "(1::int) \<le> 7" "(7::int) \<le> 30" "''TAX'' \<noteq> []"
    by simp_all
  have c2: "four_with_unreadable = ?pre @ sender_unreadable (days_ago 2) # ?post"
    by (simp add: four_with_unreadable_def)
  have call: "outlook_search_emails ascii_lower (mailbox four_with_unreadable) today ''TAX'' 7 None [] =
       (Success \<lparr>folder = ''Inbox'', total_emails = 2,
          emails = [\<lparr>subject = ''Tax form'', sender = ''Ann'', sender_email = ''ann@example.org'',
              received_time = Some (days_ago 0), read_status = ''Read'', has_attachments = False,
              email_id = ''1''\<rparr>,
             \<lparr>subject = ''re: taxes'', sender = ''Ann'', sender_email = ''ann@example.org'',
              received_time = Some (days_ago 3), read_status = ''Read'', has_attachments = False,
              email_id = ''4''\<rparr>],
          search_term = ''TAX''\<rparr>,
        [(1, message ''Tax form'' ''x'' (days_ago 0)), (4, message ''re: taxes'' ''x'' (days_ago 3))])"
    using unreadable_item_skipped_in_search [OF r d i rc w t, where c = "[]"] nr
    unfolding ev by simp
  show ?thesis
    by (intro conjI; (rule r c2 rc w m t3 t2)?) (simp_all add: call)
qed

section \<open>Message detail and attachments\<close>

lemma getattr_Inr: "getattr nm a = Inr v \<longleftrightarrow> a = Value v"
  by (cases a) auto

lemma bindE_Inr: "bindE m f = Inr v \<longleftrightarrow> (\<exists>x. m = Inr x \<and> f x = Inr v)"
  by (cases m) auto

lemma attachments_loop_result:
  assumes "attachments_loop atts ixs acc = Inr r"
    and "\<forall>i \<in> set ixs. 1 \<le> i \<and> i \<le> int (length atts)"
  shows "\<exists>rs. r = acc @ rs
           \<and> map (\<lambda>a. Value (filename a)) rs = map (\<lambda>i. FileName (atts ! nat (i - 1))) ixs
           \<and> map (\<lambda>a. Value (size_bytes a)) rs = map (\<lambda>i. Size (atts ! nat (i - 1))) ixs"
  using assms
proof (induction ixs arbitrary: acc)
  case Nil
  then show ?case by simp
next
  case (Cons i ixs)
  have a: "attachment_at atts i = Inr (atts ! nat (i - 1))"
    using Cons.prems(2) by (simp add: attachment_at_def)
  from Cons.prems(1) obtain fn sz where
    fn: "FileName (atts ! nat (i - 1)) = Value fn" and sz: "Size (atts ! nat (i - 1)) = Value sz"
    and rest: "attachments_loop atts ixs (acc @ [\<lparr>filename = fn, size_bytes = sz\<rparr>]) = Inr r"
    by (auto simp: a getattr_Inr split: sum.splits)
  from Cons.IH [OF rest] Cons.prems(2)
  obtain rs where rs: "r = (acc @ [\<lparr>filename = fn, size_bytes = sz\<rparr>]) @ rs"
    "map (\<lambda>a. Value (filename a)) rs = map (\<lambda>i. FileName (atts ! nat (i - 1))) ixs"
    "map (\<lambda>a. Value (size_bytes a)) rs = map (\<lambda>i. Size (atts ! nat (i - 1))) ixs"
    by auto
  show ?case
    by (rule exI [of _ "\<lparr>filename = fn, size_bytes = sz\<rparr> # rs"]) (simp add: rs fn sz)
qed

lemma nth_over_upto: "map (\<lambda>i. xs ! nat (i - 1)) [1 .. int (length xs)] = xs"
proof (rule nth_equalityI)
  show "length (map (\<lambda>i. xs ! nat (i - 1)) [1 .. int (length xs)]) = length xs" by simp
next
  fix j assume "j < length (map (\<lambda>i. xs ! nat (i - 1)) [1 .. int (length xs)])"
  then have j: "j < length xs" by simp
  then have "[1 .. int (length xs)] ! j = 1 + int j" by (intro nth_upto) simp
  with j show "map (\<lambda>i. xs ! nat (i - 1)) [1 .. int (length xs)] ! j = xs ! j" by simp
qed

lemma attachments_loop_total:
  assumes "\<forall>i \<in> set ixs. 1 \<le> i \<and> i \<le> int (length atts)"
    and "list_all (\<lambda>a. is_Value (FileName a) \<and> is_Value (Size a)) atts"
  shows "\<exists>r. attachments_loop atts ixs acc = Inr r"
  using assms(1)
proof (induction ixs arbitrary: acc)
  case Nil
  then show ?case by simp
next
  case (Cons i ixs)
  have a: "attachment_at atts i = Inr (atts ! nat (i - 1))"
    using Cons.prems by (simp add: attachment_at_def)
  have "atts ! nat (i - 1) \<in> set atts" using Cons.prems by (intro nth_mem) auto
  then have "is_Value (FileName (atts ! nat (i - 1)))" "is_Value (Size (atts ! nat (i - 1)))"
    using assms(2) by (auto simp: list_all_iff)
  then obtain fn sz where "FileName (atts ! nat (i - 1)) = Value fn" "Size (atts ! nat (i - 1)) = Value sz"
    by (auto elim!: is_Value.elims)
  then show ?case using Cons a by simp
qed

lemma email_details_attachments:
  assumes "email_details_of it = Inr d" and "Attachments it = Value atts"
  shows "has_attachments d = (atts \<noteq> [])
       \<and> map (\<lambda>r. Value (filename r)) (attachments d) = map FileName atts
       \<and> map (\<lambda>r. Value (size_bytes r)) (attachments d) = map Size atts"
proof (cases "atts = []")
  case True
  with assms show ?thesis
    by (auto simp: email_details_of_def getattr_Inr bindE_Inr)
next
  case False
  with assms obtain infos where
    l: "attachments_loop atts [1 .. int (length atts)] [] = Inr infos"
    and d: "attachments d = infos" "has_attachments d"
    by (auto simp: email_details_of_def getattr_Inr bindE_Inr)
  from attachments_loop_result [OF l] obtain rs where "infos = rs"
    "map (\<lambda>a. Value (filename a)) rs = map (\<lambda>i. FileName (atts ! nat (i - 1))) [1 .. int (length atts)]"
    "map (\<lambda>a. Value (size_bytes a)) rs = map (\<lambda>i. Size (atts ! nat (i - 1))) [1 .. int (length atts)]"
    by auto
  moreover have "map (\<lambda>i. FileName (atts ! nat (i - 1))) [1 .. int (length atts)] = map FileName atts"
    using arg_cong [OF nth_over_upto [of atts], of "map FileName"] by (simp add: comp_def)
  moreover have "map (\<lambda>i. Size (atts ! nat (i - 1))) [1 .. int (length atts)] = map Size atts"
    using arg_cong [OF nth_over_upto [of atts], of "map Size"] by (simp add: comp_def)
  ultimately show ?thesis using d False by simp
qed

lemma email_details_total:
  assumes "details_readable it"
  shows "\<exists>d. email_details_of it = Inr d"
proof -
  from assms obtain subj sn se rt b unread atts where v:
    "Subject it = Value subj" "SenderName it = Value sn" "SenderEmailAddress it = Value se"
    "ReceivedTime it = Value rt" "Body it = Value b" "UnRead it = Value unread"
    "Attachments it = Value atts"
    and al: "list_all (\<lambda>a. is_Value (FileName a) \<and> is_Value (Size a)) atts"
    by (auto simp: details_readable_def split: attr.splits elim!: is_Value.elims)
  from assms obtain imp where i: "importance_or_default (Importance it) = Inr imp"
    by (cases "Importance it") (auto simp: details_readable_def)
  obtain infos where "attachments_loop atts [1 .. int (length atts)] [] = Inr infos"
    using attachments_loop_total [OF _ al, of "[1 .. int (length atts)]" "[]"] by auto
  then show ?thesis by (simp add: email_details_of_def v i)
qed

lemma get_email_hit:
  "map_of c n = Some it \<Longrightarrow> outlook_get_email_by_number c n = detail_result it"
  by (auto simp: outlook_get_email_by_number_def detail_result_def)

lemma get_email_miss:
  "map_of c n = None \<Longrightarrow>
     outlook_get_email_by_number c n =
       Error (if c = [] then no_listing_message else not_found_message n)"
  by (simp add: outlook_get_email_by_number_def)

lemma detail_result_Success: "detail_result it = Success d \<longleftrightarrow> email_details_of it = Inr d"
  by (simp add: detail_result_def split: sum.splits)

text \<open>
  C9. For a cached number, whenever the detail lookup returns a detail record, its
  \<open>has_attachments\<close> flag says whether the message has attachments and its attachment
  list holds one record per attachment, in the provider's order from index 1 on, with
  that attachment's file name and size; for a message with no attachment the flag is
  false and the list is empty. The lookup does return a detail record when every
  attribute it reads can be read.
\<close>

theorem attachments_in_provider_order:
  assumes "map_of c n = Some it" and "Attachments it = Value atts"
  shows "(\<forall>d. outlook_get_email_by_number c n = Success d \<longrightarrow>
            has_attachments d = (atts \<noteq> [])
            \<and> map (\<lambda>r. Value (filename r)) (attachments d) = map FileName atts
            \<and> map (\<lambda>r. Value (size_bytes r)) (attachments d) = map Size atts
            \<and> (atts = [] \<longrightarrow> \<not> has_attachments d \<and> attachments d = []))
       \<and> (details_readable it \<longrightarrow> (\<exists>d. outlook_get_email_by_number c n = Success d))"
proof (intro conjI allI impI)
  fix d assume "outlook_get_email_by_number c n = Success d"
  then have d: "email_details_of it = Inr d"
    by (simp add: get_email_hit [OF assms(1)] detail_result_Success)
  from email_details_attachments [OF d assms(2)]
  show "has_attachments d = (atts \<noteq> [])"
    and "map (\<lambda>r. Value (filename r)) (attachments d) = map FileName atts"
    and "map (\<lambda>r. Value (size_bytes r)) (attachments d) = map Size atts"
    by simp_all
  assume "atts = []"
  with email_details_attachments [OF d assms(2)]
  show "\<not> has_attachments d" and "attachments d = []" by simp_all
next
  assume "details_readable it"
  then show "\<exists>d. outlook_get_email_by_number c n = Success d"
    using email_details_total [of it] by (auto simp: get_email_hit [OF assms(1)] detail_result_Success)
qed

theorem attachments_in_provider_order_witness:
  "map_of [(1::int, message ''hi'' ''x'' (days_ago 0)), (2, with_attachments)] 2 = Some with_attachments
   \<and> Attachments with_attachments =
        Value [\<lparr>FileName = Value ''a.pdf'', Size = Value 1200\<rparr>,
               \<lparr>FileName = Value ''b.png'', Size = Value 34\<rparr>]
   \<and> details_readable with_attachments
   \<and> outlook_get_email_by_number [(1::int, message ''hi'' ''x'' (days_ago 0)), (2, with_attachments)] 2 =
       Success \<lparr>subject = ''report'', sender = ''Ann'', sender_email = ''ann@example.org'',
                received_time = Some (days_ago 0), read_status = ''Read'', has_attachments = True,
                body = ''see attached'', importance = 1,
                attachments = [\<lparr>filename = ''a.pdf'', size_bytes = 1200\<rparr>,
                               \<lparr>filename = ''b.png'', size_bytes = 34\<rparr>]\<rparr>
   \<and> map_of [(1::int, message ''hi'' ''x'' (days_ago 0)), (2, with_attachments)] 1 = Some (message ''hi'' ''x'' (days_ago 0))
   \<and> Attachments (message ''hi'' ''x'' (days_ago 0)) = Value []
   \<and> outlook_get_email_by_number [(1::int, message ''hi'' ''x'' (days_ago 0)), (2, with_attachments)] 1 =
       Success \<lparr>subject = ''hi'', sender = ''Ann'', sender_email = ''ann@example.org'',
                received_time = Some (days_ago 0), read_status = ''Read'', has_attachments = False,
                body = ''x'', importance = 1, attachments = []\<rparr>"
proof -
  let ?c = "[(1::int, message ''hi'' ''x'' (days_ago 0)), (2, with_attachments)]"
  have m2: "map_of ?c 2 = Some with_attachments" by simp
  have a2: "Attachments with_attachments =
        Value [\<lparr>FileName = Value ''a.pdf'', Size = Value 1200\<rparr>,
               \<lparr>FileName = Value ''b.png'', Size = Value 34\<rparr>]"
    by (simp add: with_attachments_def)
  have r2: "details_readable with_attachments"
    by (simp add: details_readable_def with_attachments_def message_def)
  have m1: "map_of ?c 1 = Some (message ''hi'' ''x'' (days_ago 0))" by simp
  have a1: "Attachments (message ''hi'' ''x'' (days_ago 0)) = Value []"
    by (simp add: message_def)
  have r1: "details_readable (message ''hi'' ''x'' (days_ago 0))"
    by (simp add: details_readable_def message_def)
  have e2: "detail_result with_attachments =
       Success \<lparr>subject = ''report'', sender = ''Ann'', sender_email = ''ann@example.org'',
                received_time = Some (days_ago 0), read_status = ''Read'', has_attachments = True,
                body = ''see attached'', importance = 1,
                attachments = [\<lparr>filename = ''a.pdf'', size_bytes = 1200\<rparr>,
                               \<lparr>filename = ''b.png'', size_bytes = 34\<rparr>]\<rparr>"
    by (simp add: detail_result_def email_details_of_def with_attachments_def message_def
        attachment_at_def upto.simps)
  have e1: "detail_result (message ''hi'' ''x'' (days_ago 0)) =
       Success \<lparr>subject = ''hi'', sender = ''Ann'', sender_email = ''ann@example.org'',
                received_time = Some (days_ago 0), read_status = ''Read'', has_attachments = False,
                body = ''x'', importance = 1, attachments = []\<rparr>"
    by (simp add: detail_result_def email_details_of_def message_def)
  from attachments_in_provider_order [OF m2 a2] r2
  obtain d2 where d2: "outlook_get_email_by_number ?c 2 = Success d2" by blast
  from attachments_in_provider_order [OF m1 a1] r1
  obtain d1 where d1: "outlook_get_email_by_number ?c 1 = Success d1"
    and "\<not> has_attachments d1" "attachments d1 = []" by blast
  have "outlook_get_email_by_number ?c 2 = detail_result with_attachments"
       "outlook_get_email_by_number ?c 1 = detail_result (message ''hi'' ''x'' (days_ago 0))"
    using d1 d2 by (simp_all add: outlook_get_email_by_number_def detail_result_def)
  then show ?thesis using m2 a2 r2 m1 a1 e1 e2 by simp
qed

section \<open>Kept items, their summaries and their cache entries\<close>

lemma make_email_data_fields:
  assumes "make_email_data k rt it = Inr s"
  obtains subj sn se unread atts where
    "Subject it = Value subj" "SenderName it = Value sn" "SenderEmailAddress it = Value se"
    "UnRead it = Value unread" "Attachments it = Value atts"
    "s = \<lparr>subject = or_empty subj, sender = or_empty sn, sender_email = or_empty se,
          received_time = Some rt, read_status = (if \<not> unread then ''Read'' else ''Unread''),
          has_attachments = (length atts > 0), email_id = str_int k\<rparr>"
  using assms by (auto simp: make_email_data_def bindE_Inr getattr_Inr)

lemma list_step_KeepD:
  assumes "list_step thr (k, it) = Keep s"
  shows "\<exists>rt. ReceivedTime it = Value (Some rt) \<and> thr \<le> rt \<and> make_email_data k rt it = Inr s"
  using assms by (auto split: attr.splits option.splits if_splits sum.splits)

lemma search_step_KeepD:
  assumes "search_step lower thr t (k, it) = Keep s"
  shows "\<exists>rt. ReceivedTime it = Value (Some rt) \<and> thr \<le> rt \<and> item_matches lower t it = Inr True
            \<and> make_email_data k rt it = Inr s"
  using assms
  by (auto simp: search_try_def bindE_Inr split: attr.splits option.splits if_splits sum.splits)



lemma kept_data_in_kept:
  assumes "s \<in> set (kept_data f ps)"
  shows "\<exists>p \<in> set (kept f ps). f p = Keep s"
proof -
  from assms obtain j where j: "j < length (kept_data f ps)" "kept_data f ps ! j = s"
    by (auto simp: in_set_conv_nth)
  with kept_data_aligned [of f ps] have "j < length (kept f ps)" "f (kept f ps ! j) = Keep s"
    by (auto simp: list_all2_conv_all_nth)
  then show ?thesis using nth_mem by blast
qed

lemma kept_data_ids:
  assumes "\<And>p d. f p = Keep d \<Longrightarrow> email_id d = str_int (fst p)"
  shows "map email_id (kept_data f ps) = map (\<lambda>p. str_int (fst p)) (kept f ps)"
  using kept_data_aligned [of f ps] assms
  by (induction rule: list_all2_induct) auto

lemma list_step_id: "list_step thr p = Keep d \<Longrightarrow> email_id d = str_int (fst p)"
proof -
  assume a: "list_step thr p = Keep d"
  obtain k it where p: "p = (k, it)" by (cases p)
  from a p obtain rt where "make_email_data k rt it = Inr d"
    using list_step_KeepD by blast
  then show ?thesis using p by (auto elim: make_email_data_fields)
qed

lemma search_step_id: "search_step lower thr t p = Keep d \<Longrightarrow> email_id d = str_int (fst p)"
proof -
  assume a: "search_step lower thr t p = Keep d"
  obtain k it where p: "p = (k, it)" by (cases p)
  from a p obtain rt where "make_email_data k rt it = Inr d"
    using search_step_KeepD by blast
  then show ?thesis using p by (auto elim: make_email_data_fields)
qed


lemma map_filter_append: "List.map_filter g (xs @ ys) = List.map_filter g xs @ List.map_filter g ys"
  by (simp add: List.map_filter_def)


lemma kept_entries:
  assumes "p \<in> set (kept f (enumerate_from 1 items))"
  shows "1 \<le> fst p \<and> fst p \<le> int (length items) \<and> items ! nat (fst p - 1) = snd p
       \<and> is_Keep (f p) \<and> map_of (kept f (enumerate_from 1 items)) (fst p) = Some (snd p)"
proof -
  obtain k it where p: "p = (k, it)" by (cases p)
  have "(k, it) \<in> set (enumerate_from 1 items)" using assms kept_subset p by blast
  then have "1 \<le> k \<and> k \<le> int (length items) \<and> items ! nat (k - 1) = it"
    by (simp add: in_enumerate_from)
  then have "1 \<le> fst p \<and> fst p \<le> int (length items) \<and> items ! nat (fst p - 1) = snd p"
    by (simp add: p)
  moreover have "distinct (map fst (kept f (enumerate_from 1 items)))"
    by (intro strict_sorted_distinct sorted_keys_kept sorted_keys_enumerate_from)
  then have "map_of (kept f (enumerate_from 1 items)) (fst p) = Some (snd p)"
    using assms by (intro map_of_is_SomeI) simp_all
  ultimately show ?thesis using kept_all_Keep [OF assms] by simp
qed

section \<open>Summary ids and cache keys\<close>

lemma details_agree_with_summary:
  assumes "make_email_data k rt it = Inr s" "ReceivedTime it = Value (Some rt)"
    "email_details_of it = Inr d"
  shows "subject d = subject s \<and> sender d = sender s \<and> sender_email d = sender_email s
       \<and> received_time d = received_time s \<and> read_status d = read_status s
       \<and> has_attachments d = has_attachments s"
proof -
  from assms(1) obtain subj sn se unread atts where
    "Subject it = Value subj" "SenderName it = Value sn" "SenderEmailAddress it = Value se"
    "UnRead it = Value unread" "Attachments it = Value atts"
    "s = \<lparr>subject = or_empty subj, sender = or_empty sn, sender_email = or_empty se,
          received_time = Some rt, read_status = (if \<not> unread then ''Read'' else ''Unread''),
          has_attachments = (length atts > 0), email_id = str_int k\<rparr>"
    by (rule make_email_data_fields)
  with assms(2,3) show ?thesis
    by (auto simp: email_details_of_def bindE_Inr getattr_Inr)
qed

lemma listed_item_readable:
  assumes "make_email_data k rt it = Inr s" "ReceivedTime it = Value (Some rt)" "rest_readable it"
  shows "details_readable it"
proof -
  from assms(1) obtain subj sn se unread atts where
    "Subject it = Value subj" "SenderName it = Value sn" "SenderEmailAddress it = Value se"
    "UnRead it = Value unread" "Attachments it = Value atts"
    by (rule make_email_data_fields)
  with assms(2,3) show ?thesis
    by (simp add: details_readable_def rest_readable_def)
qed

lemma kept_summary_resolves:
  assumes keep: "\<And>p d. f p = Keep d \<Longrightarrow>
       \<exists>rt. ReceivedTime (snd p) = Value (Some rt) \<and> make_email_data (fst p) rt (snd p) = Inr d"
    and s: "s \<in> set (kept_data f (enumerate_from 1 items))"
  shows "summary_resolves (kept f (enumerate_from 1 items)) s"
proof -
  let ?c = "kept f (enumerate_from 1 items)"
  from kept_data_in_kept [OF s] obtain p where p: "p \<in> set ?c" "f p = Keep s" by blast
  from keep [OF p(2)] obtain rt where rt: "ReceivedTime (snd p) = Value (Some rt)"
    "make_email_data (fst p) rt (snd p) = Inr s" by blast
  have id: "email_id s = str_int (fst p)"
    using rt(2) by (auto elim: make_email_data_fields)
  have uniq: "\<forall>j. str_int j = email_id s \<longrightarrow> j = fst p"
    using id str_int_inj by simp
  have m: "map_of ?c (fst p) = Some (snd p)" using kept_entries [OF p(1)] by simp
  have g: "outlook_get_email_by_number ?c (fst p) = detail_result (snd p)"
    using get_email_hit [OF m] .
  have agree: "\<forall>d. outlook_get_email_by_number ?c (fst p) = Success d \<longrightarrow>
              subject d = subject s \<and> sender d = sender s \<and> sender_email d = sender_email s
              \<and> received_time d = received_time s \<and> read_status d = read_status s
              \<and> has_attachments d = has_attachments s"
    using details_agree_with_summary [OF rt(2) rt(1)] by (simp add: g detail_result_Success)
  have ok: "rest_readable (snd p) \<longrightarrow> (\<exists>d. outlook_get_email_by_number ?c (fst p) = Success d)"
    using listed_item_readable [OF rt(2) rt(1)] email_details_total [of "snd p"]
    by (auto simp: g detail_result_Success)
  show ?thesis
    unfolding summary_resolves_def
    using id uniq m rt g ok agree by blast
qed

text \<open>
  C10. After a successful listing or search, the id of every returned summary is the
  decimal text of the integer under which the cache holds the item that the summary was
  built from, and of no other integer. A detail lookup with that integer, made on that
  cache, answers with the detail of this same item: it returns a detail record whenever
  the attributes that only the lookup reads (body, importance, attachment names and
  sizes) can be read, and the error of that read otherwise; a detail record it returns
  agrees with the summary on subject, sender, sender address, received time, read status
  and attachment flag.
\<close>

theorem summary_id_names_cache_key:
  "(outlook_list_recent_emails lower env now days fn c = (Success r, c') \<longrightarrow>
      (\<forall>s \<in> set (emails r). summary_resolves c' s))
   \<and> (outlook_search_emails lower env now kw days fn c = (Success r', c') \<longrightarrow>
      (\<forall>s \<in> set (emails r'). summary_resolves c' s))"
proof (intro conjI impI ballI)
  fix s assume a: "outlook_list_recent_emails lower env now days fn c = (Success r, c')"
    and s: "s \<in> set (emails r)"
  from a obtain fld where
    "emails r = kept_data (list_step (now - timedelta_days days)) (enumerate_from 1 (Items fld))"
    "c' = kept (list_step (now - timedelta_days days)) (enumerate_from 1 (Items fld))"
    by (rule list_success)
  moreover have "\<exists>rt. ReceivedTime (snd p) = Value (Some rt) \<and> make_email_data (fst p) rt (snd p) = Inr d"
    if "list_step (now - timedelta_days days) p = Keep d" for p d
    using that list_step_KeepD [of _ "fst p" "snd p" d] by auto
  ultimately show "summary_resolves c' s"
    using s kept_summary_resolves [of "list_step (now - timedelta_days days)" s "Items fld"] by simp
next
  fix s assume a: "outlook_search_emails lower env now kw days fn c = (Success r', c')"
    and s: "s \<in> set (emails r')"
  from a obtain fld where
    "emails r' = kept_data (search_step lower (now - timedelta_days days) (lower kw)) (enumerate_from 1 (Items fld))"
    "c' = kept (search_step lower (now - timedelta_days days) (lower kw)) (enumerate_from 1 (Items fld))"
    by (rule search_success)
  moreover have "\<exists>rt. ReceivedTime (snd p) = Value (Some rt) \<and> make_email_data (fst p) rt (snd p) = Inr d"
    if "search_step lower (now - timedelta_days days) (lower kw) p = Keep d" for p d
    using that search_step_KeepD [of lower "now - timedelta_days days" "lower kw" "fst p" "snd p" d] by auto
  ultimately show "summary_resolves c' s"
    using s kept_summary_resolves [of "search_step lower (now - timedelta_days days) (lower kw)" s "Items fld"]
    by simp
qed

theorem summary_id_names_cache_key_witness:
  "outlook_search_emails ascii_lower (mailbox two_messages) today ''tax'' 7 None [] =
     (Success \<lparr>folder = ''Inbox'', total_emails = 1,
        emails = [\<lparr>subject = ''Tax form'', sender = ''Ann'', sender_email = ''ann@example.org'',
                   received_time = Some (days_ago 1), read_status = ''Read'',
                   has_attachments = False, email_id = ''2''\<rparr>],
        search_term = ''tax''\<rparr>,
      [(2, message ''Tax form'' ''y'' (days_ago 1))])
   \<and> summary_resolves [(2, message ''Tax form'' ''y'' (days_ago 1))]
        \<lparr>subject = ''Tax form'', sender = ''Ann'', sender_email = ''ann@example.org'',
         received_time = Some (days_ago 1), read_status = ''Read'',
         has_attachments = False, email_id = ''2''\<rparr>
   \<and> outlook_list_recent_emails ascii_lower (mailbox two_messages) today 7 None [] =
     (Success \<lparr>folder = ''Inbox'', total_emails = 2,
        emails = [\<lparr>subject = ''hello'', sender = ''Ann'', sender_email = ''ann@example.org'',
                   received_time = Some (days_ago 0), read_status = ''Read'',
                   has_attachments = False, email_id = ''1''\<rparr>,
                  \<lparr>subject = ''Tax form'', sender = ''Ann'', sender_email = ''ann@example.org'',
                   received_time = Some (days_ago 1), read_status = ''Read'',
                   has_attachments = False, email_id = ''2''\<rparr>]\<rparr>,
      [(1, message ''hello'' ''x'' (days_ago 0)), (2, message ''Tax form'' ''y'' (days_ago 1))])
   \<and> summary_resolves [(1, message ''hello'' ''x'' (days_ago 0)), (2, message ''Tax form'' ''y'' (days_ago 1))]
        \<lparr>subject = ''hello'', sender = ''Ann'', sender_email = ''ann@example.org'',
         received_time = Some (days_ago 0), read_status = ''Read'',
         has_attachments = False, email_id = ''1''\<rparr>
   \<and> rest_readable (message ''Tax form'' ''y'' (days_ago 1))
   \<and> outlook_get_email_by_number [(2, message ''Tax form'' ''y'' (days_ago 1))] 2 =
       Success \<lparr>subject = ''Tax form'', sender = ''Ann'', sender_email = ''ann@example.org'',
                received_time = Some (days_ago 1), read_status = ''Read'',
                has_attachments = False, body = ''y'', importance = 1, attachments = []\<rparr>"
proof -
  have rr: "rest_readable (message ''Tax form'' ''y'' (days_ago 1))"
    by (simp add: rest_readable_def message_def)
  have g: "outlook_get_email_by_number [(2, message ''Tax form'' ''y'' (days_ago 1))] 2 =
       Success \<lparr>subject = ''Tax form'', sender = ''Ann'', sender_email = ''ann@example.org'',
                received_time = Some (days_ago 1), read_status = ''Read'',
                has_attachments = False, body = ''y'', importance = 1, attachments = []\<rparr>"
    by (simp add: run_defs)
  have s: "outlook_search_emails ascii_lower (mailbox two_messages) today ''tax'' 7 None [] =
     (Success \<lparr>folder = ''Inbox'', total_emails = 1,
        emails = [\<lparr>subject = ''Tax form'', sender = ''Ann'', sender_email = ''ann@example.org'',
                   received_time = Some (days_ago 1), read_status = ''Read'',
                   has_attachments = False, email_id = ''2''\<rparr>],
        search_term = ''tax''\<rparr>,
      [(2, message ''Tax form'' ''y'' (days_ago 1))])"
    by (simp add: run_defs two_messages_def)
  have l: "outlook_list_recent_emails ascii_lower (mailbox two_messages) today 7 None [] =
     (Success \<lparr>folder = ''Inbox'', total_emails = 2,
        emails = [\<lparr>subject = ''hello'', sender = ''Ann'', sender_email = ''ann@example.org'',
                   received_time = Some (days_ago 0), read_status = ''Read'',
                   has_attachments = False, email_id = ''1''\<rparr>,
                  \<lparr>subject = ''Tax form'', sender = ''Ann'', sender_email = ''ann@example.org'',
                   received_time = Some (days_ago 1), read_status = ''Read'',
                   has_attachments = False, email_id = ''2''\<rparr>]\<rparr>,
      [(1, message ''hello'' ''x'' (days_ago 0)), (2, message ''Tax form'' ''y'' (days_ago 1))])"
    by (simp add: run_defs two_messages_def)
  show ?thesis
    using summary_id_names_cache_key [where lower = ascii_lower and env = "mailbox two_messages" and now = today
        and days = 7 and fn = None and c = "[]" and kw = "''tax''",
        unfolded s l] s l rr g
    by simp
qed

section \<open>The keys of a generation\<close>

lemma upto_as_map: "[1 .. int m] = map (\<lambda>j. 1 + int j) [0 ..< m]"
proof (rule nth_equalityI)
  show "length [1 .. int m] = length (map (\<lambda>j. 1 + int j) [0 ..< m])" by simp
next
  fix j assume "j < length [1 .. int m]"
  then have j: "j < m" by simp
  then have "[1 .. int m] ! j = 1 + int j" by (intro nth_upto) simp
  with j show "[1 .. int m] ! j = map (\<lambda>j. 1 + int j) [0 ..< m] ! j" by simp
qed

lemma keys_of_enumerated_prefix:
  "map fst (takeWhile P (enumerate_from 1 xs)) = [1 .. int (length (takeWhile P (enumerate_from 1 xs)))]"
proof -
  let ?n = "length (takeWhile P (enumerate_from 1 xs))"
  have n: "?n \<le> length xs"
    using length_takeWhile_le [of P "enumerate_from 1 xs"]
      arg_cong [OF map_fst_enumerate_from [of 1 xs], of length] by simp
  have "map fst (takeWhile P (enumerate_from 1 xs)) = take ?n (map fst (enumerate_from 1 xs))"
    using arg_cong [OF takeWhile_eq_take [of P "enumerate_from 1 xs"], of "map fst"]
    by (simp only: take_map)
  also have "\<dots> = map (\<lambda>j. 1 + int j) [0 ..< ?n]"
    using n by (simp add: map_fst_enumerate_from take_map min_def)
  finally show ?thesis by (simp add: upto_as_map)
qed

lemma kept_without_skips:
  assumes "\<forall>p \<in> set ps. f p \<noteq> Skip"
  shows "kept f ps = takeWhile (\<lambda>p. goes_on (f p)) ps"
  unfolding kept_def
proof (rule filter_True, rule ballI)
  fix p assume p: "p \<in> set (takeWhile (\<lambda>p. goes_on (f p)) ps)"
  then have "goes_on (f p)" "f p \<noteq> Skip" using assms by (auto dest: set_takeWhileD)
  then show "is_Keep (f p)" by (cases "f p") simp_all
qed

lemma list_step_SkipD: "list_step thr p = Skip \<Longrightarrow> received (snd p) = None"
  by (cases p) (auto simp: received_def split: attr.splits option.splits if_splits sum.splits)

lemma kept_keyed:
  assumes "\<And>p d. f p = Keep d \<Longrightarrow> email_id d = str_int (fst p)"
  shows "cache_keyed_by (kept_data f (enumerate_from 1 items)) (kept f (enumerate_from 1 items))"
proof -
  let ?c = "kept f (enumerate_from 1 items)"
  have len: "length ?c = length (kept_data f (enumerate_from 1 items))"
    using kept_data_aligned [of f "enumerate_from 1 items"] by (rule list_all2_lengthD)
  have ids: "map email_id (kept_data f (enumerate_from 1 items)) = map (\<lambda>p. str_int (fst p)) ?c"
    using assms by (rule kept_data_ids)
  have srt: "sorted_wrt (<) (map fst ?c)"
    by (intro sorted_keys_kept sorted_keys_enumerate_from)
  have hit: "1 \<le> fst p \<and> outlook_get_email_by_number ?c (fst p) = detail_result (snd p)"
    if "p \<in> set ?c" for p
    using kept_entries [OF that] get_email_hit [of ?c "fst p" "snd p"] by simp
  have miss: "outlook_get_email_by_number ?c k =
      Error (if ?c = [] then no_listing_message else not_found_message k)"
    if "k \<notin> fst ` set ?c" for k
    using that get_email_miss [of ?c k] by (simp add: map_of_eq_None_iff)
  show ?thesis
    unfolding cache_keyed_by_def using len ids srt hit miss by blast
qed

lemma kept_at_positions:
  assumes "\<And>p d. f p = Keep d \<Longrightarrow>
       \<exists>rt. ReceivedTime (snd p) = Value (Some rt) \<and> make_email_data (fst p) rt (snd p) = Inr d"
  shows "at_positions items (kept_data f (enumerate_from 1 items)) (kept f (enumerate_from 1 items))"
  unfolding at_positions_def list_all2_conv_all_nth
proof (intro conjI allI impI)
  let ?c = "kept f (enumerate_from 1 items)"
  let ?es = "kept_data f (enumerate_from 1 items)"
  have al: "list_all2 (\<lambda>p d. f p = Keep d) ?c ?es" by (rule kept_data_aligned)
  then show len: "length ?es = length ?c" by (simp add: list_all2_lengthD)
  fix i assume "i < length ?es"
  then have i: "i < length ?c" using len by simp
  then have k: "f (?c ! i) = Keep (?es ! i)" using al by (simp add: list_all2_conv_all_nth)
  have "?c ! i \<in> set ?c" using i by simp
  then have pos: "1 \<le> fst (?c ! i) \<and> fst (?c ! i) \<le> int (length items)
      \<and> items ! nat (fst (?c ! i) - 1) = snd (?c ! i)"
    using kept_entries [of "?c ! i" f items] by simp
  from pos show "1 \<le> fst (?c ! i)" by simp
  from pos show "fst (?c ! i) \<le> int (length items)" by simp
  from pos show "items ! nat (fst (?c ! i) - 1) = snd (?c ! i)" by simp
  from assms [OF k]
  show "\<exists>rt. ReceivedTime (snd (?c ! i)) = Value (Some rt)
           \<and> make_email_data (fst (?c ! i)) rt (snd (?c ! i)) = Inr (?es ! i)" .
qed

lemma list_step_summary:
  "list_step thr p = Keep d \<Longrightarrow>
     \<exists>rt. ReceivedTime (snd p) = Value (Some rt) \<and> make_email_data (fst p) rt (snd p) = Inr d"
  using list_step_KeepD [of thr "fst p" "snd p" d] by auto

lemma search_step_summary:
  "search_step lower thr t p = Keep d \<Longrightarrow>
     \<exists>rt. ReceivedTime (snd p) = Value (Some rt) \<and> make_email_data (fst p) rt (snd p) = Inr d"
  using search_step_KeepD [of lower thr t "fst p" "snd p" d] by auto

text \<open>
  C1, amended. After a successful listing or search that returns N summaries, the cache
  has exactly N entries, keyed in order by the integers that the summaries' ids name:
  strictly increasing positions, counted from 1, of the kept items in the enumerated
  sequence, which need not be 1..N. Each key is a position of the resolved folder's item
  sequence, the entry under it is the item at that position, and the summary with that id
  was built from that item; the entries are exactly the items that the loop kept before
  it stopped. Every key resolves in the detail lookup and every other integer gets a
  lookup failure (not found, or no prior listing when N = 0). For a listing of a folder
  whose items all carry a received time the keys are exactly 1..N and the number N + 1
  gets that lookup failure.
\<close>

theorem cache_keys_are_summary_ids:
  "(outlook_list_recent_emails lower env now days fn c = (Success r, c') \<longrightarrow>
      total_emails r = length (emails r) \<and> cache_keyed_by (emails r) c'
      \<and> (resolve lower env fn = Inr fld \<longrightarrow>
           at_positions (Items fld) (emails r) c'
           \<and> c' = kept (list_step (now - timedelta_days days)) (enumerate_from 1 (Items fld)))
      \<and> (resolve lower env fn = Inr fld \<and> (\<forall>it \<in> set (Items fld). received it \<noteq> None) \<longrightarrow>
           map fst c' = [1 .. int (total_emails r)]
           \<and> outlook_get_email_by_number c' (int (total_emails r) + 1) =
               Error (if total_emails r = 0 then no_listing_message
                      else not_found_message (int (total_emails r) + 1))))
   \<and> (outlook_search_emails lower env now kw days fn c = (Success r', c') \<longrightarrow>
      total_emails r' = length (emails r') \<and> cache_keyed_by (emails r') c'
      \<and> (resolve lower env fn = Inr fld \<longrightarrow>
           at_positions (Items fld) (emails r') c'
           \<and> c' = kept (search_step lower (now - timedelta_days days) (lower kw))
                     (enumerate_from 1 (Items fld))))"
proof (intro conjI impI)
  assume a: "outlook_list_recent_emails lower env now days fn c = (Success r, c')"
  let ?f = "list_step (now - timedelta_days days)"
  from a obtain fld' where f: "resolve lower env fn = Inr fld'"
    "emails r = kept_data ?f (enumerate_from 1 (Items fld'))"
    "total_emails r = length (emails r)"
    "c' = kept ?f (enumerate_from 1 (Items fld'))"
    by (rule list_success)
  show "total_emails r = length (emails r)" by (rule f(3))
  show k: "cache_keyed_by (emails r) c'"
    unfolding f(2,4) by (rule kept_keyed) (rule list_step_id)
  {
    assume "resolve lower env fn = Inr fld"
    then have same: "fld' = fld" using f(1) by simp
    show "at_positions (Items fld) (emails r) c'"
      unfolding f(2,4) same by (rule kept_at_positions) (rule list_step_summary)
    show "c' = kept ?f (enumerate_from 1 (Items fld))"
      using f(4) same by simp
  }
  assume b: "resolve lower env fn = Inr fld \<and> (\<forall>it \<in> set (Items fld). received it \<noteq> None)"
  then have same: "fld' = fld" using f(1) by simp
  have "\<forall>p \<in> set (enumerate_from 1 (Items fld)). ?f p \<noteq> Skip"
    using b by (auto dest!: list_step_SkipD snd_enumerate_from)
  then have "c' = takeWhile (\<lambda>p. goes_on (?f p)) (enumerate_from 1 (Items fld))"
    unfolding f(4) same by (rule kept_without_skips)
  then have "map fst c' = [1 .. int (length c')]"
    using keys_of_enumerated_prefix [of "\<lambda>p. goes_on (?f p)" "Items fld"] by simp
  moreover have n: "length c' = total_emails r"
    using k f(3) by (simp add: cache_keyed_by_def)
  ultimately show keys: "map fst c' = [1 .. int (total_emails r)]" by simp
  have "int (total_emails r) + 1 \<notin> set (map fst c')" unfolding keys by simp
  then have "outlook_get_email_by_number c' (int (total_emails r) + 1) =
      Error (if c' = [] then no_listing_message else not_found_message (int (total_emails r) + 1))"
    using k by (simp add: cache_keyed_by_def)
  moreover have "c' = [] \<longleftrightarrow> total_emails r = 0" using n by auto
  ultimately show "outlook_get_email_by_number c' (int (total_emails r) + 1) =
               Error (if total_emails r = 0 then no_listing_message
                      else not_found_message (int (total_emails r) + 1))"
    by simp
next
  assume a: "outlook_search_emails lower env now kw days fn c = (Success r', c')"
  let ?f = "search_step lower (now - timedelta_days days) (lower kw)"
  from a obtain fld' where f: "resolve lower env fn = Inr fld'"
    "emails r' = kept_data ?f (enumerate_from 1 (Items fld'))"
    "total_emails r' = length (emails r')"
    "c' = kept ?f (enumerate_from 1 (Items fld'))"
    by (rule search_success)
  show "total_emails r' = length (emails r')" by (rule f(3))
  show "cache_keyed_by (emails r') c'"
    unfolding f(2,4) by (rule kept_keyed) (rule search_step_id)
  assume "resolve lower env fn = Inr fld"
  then have same: "fld' = fld" using f(1) by simp
  show "at_positions (Items fld) (emails r') c'"
    unfolding f(2,4) same by (rule kept_at_positions) (rule search_step_summary)
  show "c' = kept ?f (enumerate_from 1 (Items fld))"
    using f(4) same by simp
qed

text \<open>
  C1, as stated, fails: a search in a folder of two messages of which only the second
  matches returns one summary, with id 2. The cache key is 2, the number 1 is not found,
  and the number N + 1 = 2 resolves.
\<close>

theorem search_keys_not_one_to_n_counterexample:
  "outlook_search_emails ascii_lower (mailbox two_messages) today ''tax'' 7 None [] =
     (Success \<lparr>folder = ''Inbox'', total_emails = 1,
        emails = [\<lparr>subject = ''Tax form'', sender = ''Ann'', sender_email = ''ann@example.org'',
                   received_time = Some (days_ago 1), read_status = ''Read'',
                   has_attachments = False, email_id = ''2''\<rparr>],
        search_term = ''tax''\<rparr>,
      [(2, message ''Tax form'' ''y'' (days_ago 1))])
   \<and> outlook_get_email_by_number
        (snd (outlook_search_emails ascii_lower (mailbox two_messages) today ''tax'' 7 None [])) 1 =
       Error ''Email #1 not found in the current listing.''
   \<and> outlook_get_email_by_number
        (snd (outlook_search_emails ascii_lower (mailbox two_messages) today ''tax'' 7 None [])) 2 =
       Success \<lparr>subject = ''Tax form'', sender = ''Ann'', sender_email = ''ann@example.org'',
                received_time = Some (days_ago 1), read_status = ''Read'',
                has_attachments = False, body = ''y'', importance = 1, attachments = []\<rparr>"
  by (simp add: run_defs two_messages_def)

theorem cache_keys_are_summary_ids_witness:
  "outlook_search_emails ascii_lower (mailbox two_messages) today ''tax'' 7 None [] =
     (Success \<lparr>folder = ''Inbox'', total_emails = 1,
        emails = [\<lparr>subject = ''Tax form'', sender = ''Ann'', sender_email = ''ann@example.org'',
                   received_time = Some (days_ago 1), read_status = ''Read'',
                   has_attachments = False, email_id = ''2''\<rparr>],
        search_term = ''tax''\<rparr>,
      [(2, message ''Tax form'' ''y'' (days_ago 1))])
   \<and> cache_keyed_by
        [\<lparr>subject = ''Tax form'', sender = ''Ann'', sender_email = ''ann@example.org'',
          received_time = Some (days_ago 1), read_status = ''Read'',
          has_attachments = False, email_id = ''2''\<rparr>]
        [(2, message ''Tax form'' ''y'' (days_ago 1))]
   \<and> at_positions (Items (Folder ''Inbox'' [] two_messages))
        [\<lparr>subject = ''Tax form'', sender = ''Ann'', sender_email = ''ann@example.org'',
          received_time = Some (days_ago 1), read_status = ''Read'',
          has_attachments = False, email_id = ''2''\<rparr>]
        [(2, message ''Tax form'' ''y'' (days_ago 1))]
   \<and> Items (Folder ''Inbox'' [] two_messages) ! nat (2 - 1) = message ''Tax form'' ''y'' (days_ago 1)
   \<and> outlook_list_recent_emails ascii_lower (mailbox two_messages) today 7 None [] =
     (Success \<lparr>folder = ''Inbox'', total_emails = 2,
        emails = [\<lparr>subject = ''hello'', sender = ''Ann'', sender_email = ''ann@example.org'',
                   received_time = Some (days_ago 0), read_status = ''Read'',
                   has_attachments = False, email_id = ''1''\<rparr>,
                  \<lparr>subject = ''Tax form'', sender = ''Ann'', sender_email = ''ann@example.org'',
                   received_time = Some (days_ago 1), read_status = ''Read'',
                   has_attachments = False, email_id = ''2''\<rparr>]\<rparr>,
      [(1, message ''hello'' ''x'' (days_ago 0)), (2, message ''Tax form'' ''y'' (days_ago 1))])
   \<and> resolve ascii_lower (mailbox two_messages) None = Inr (Folder ''Inbox'' [] two_messages)
   \<and> list_all (\<lambda>it. received it \<noteq> None) (Items (Folder ''Inbox'' [] two_messages))
   \<and> map fst [(1::int, message ''hello'' ''x'' (days_ago 0)), (2, message ''Tax form'' ''y'' (days_ago 1))]
        = [1 .. 2]
   \<and> outlook_get_email_by_number
        [(1, message ''hello'' ''x'' (days_ago 0)), (2, message ''Tax form'' ''y'' (days_ago 1))] 3 =
       Error ''Email #3 not found in the current listing.''"
proof -
  have s: "outlook_search_emails ascii_lower (mailbox two_messages) today ''tax'' 7 None [] =
     (Success \<lparr>folder = ''Inbox'', total_emails = 1,
        emails = [\<lparr>subject = ''Tax form'', sender = ''Ann'', sender_email = ''ann@example.org'',
                   received_time = Some (days_ago 1), read_status = ''Read'',
                   has_attachments = False, email_id = ''2''\<rparr>],
        search_term = ''tax''\<rparr>,
      [(2, message ''Tax form'' ''y'' (days_ago 1))])"
    by (simp add: run_defs two_messages_def)
  have l: "outlook_list_recent_emails ascii_lower (mailbox two_messages) today 7 None [] =
     (Success \<lparr>folder = ''Inbox'', total_emails = 2,
        emails = [\<lparr>subject = ''hello'', sender = ''Ann'', sender_email = ''ann@example.org'',
                   received_time = Some (days_ago 0), read_status = ''Read'',
                   has_attachments = False, email_id = ''1''\<rparr>,
                  \<lparr>subject = ''Tax form'', sender = ''Ann'', sender_email = ''ann@example.org'',
                   received_time = Some (days_ago 1), read_status = ''Read'',
                   has_attachments = False, email_id = ''2''\<rparr>]\<rparr>,
      [(1, message ''hello'' ''x'' (days_ago 0)), (2, message ''Tax form'' ''y'' (days_ago 1))])"
    by (simp add: run_defs two_messages_def)
  have r: "resolve ascii_lower (mailbox two_messages) None = Inr (Folder ''Inbox'' [] two_messages)"
    by (simp add: run_defs)
  have t: "\<forall>it \<in> set (Items (Folder ''Inbox'' [] two_messages)). received it \<noteq> None"
    by (simp add: two_messages_def received_def message_def)
  have m: "not_found_message 3 = ''Email #3 not found in the current listing.''"
    by (simp add: run_defs)
  have u: "[1 .. 2] = [1, 2::int]"
    by (simp add: upto.simps)
  let ?s2 = "\<lparr>subject = ''Tax form'', sender = ''Ann'', sender_email = ''ann@example.org'',
              received_time = Some (days_ago 1), read_status = ''Read'',
              has_attachments = False, email_id = ''2''\<rparr>"
  let ?s1 = "\<lparr>subject = ''hello'', sender = ''Ann'', sender_email = ''ann@example.org'',
              received_time = Some (days_ago 0), read_status = ''Read'',
              has_attachments = False, email_id = ''1''\<rparr>"
  note S = cache_keys_are_summary_ids [where lower = ascii_lower and env = "mailbox two_messages"
      and now = today and days = 7 and fn = None and c = "[]" and kw = "''tax''"
      and fld = "Folder ''Inbox'' [] two_messages"
      and r' = "\<lparr>folder = ''Inbox'', total_emails = 1, emails = [?s2], search_term = ''tax''\<rparr>"
      and c' = "[(2, message ''Tax form'' ''y'' (days_ago 1))]", THEN conjunct2, THEN mp, OF s]
  have a: "cache_keyed_by [?s2] [(2, message ''Tax form'' ''y'' (days_ago 1))]"
    using S [THEN conjunct2, THEN conjunct1] by simp
  have p: "at_positions (Items (Folder ''Inbox'' [] two_messages)) [?s2]
             [(2, message ''Tax form'' ''y'' (days_ago 1))]"
    using S [THEN conjunct2, THEN conjunct2, THEN mp, OF r, THEN conjunct1] by simp
  have q: "Items (Folder ''Inbox'' [] two_messages) ! nat (2 - 1) = message ''Tax form'' ''y'' (days_ago 1)"
    by (simp add: two_messages_def)
  note L = cache_keys_are_summary_ids [where lower = ascii_lower and env = "mailbox two_messages"
      and now = today and days = 7 and fn = None and c = "[]"
      and fld = "Folder ''Inbox'' [] two_messages"
      and r = "\<lparr>folder = ''Inbox'', total_emails = 2, emails = [?s1, ?s2]\<rparr>"
      and c' = "[(1, message ''hello'' ''x'' (days_ago 0)), (2, message ''Tax form'' ''y'' (days_ago 1))]",
      THEN conjunct1, THEN mp, OF l]
  have b: "outlook_get_email_by_number
        [(1, message ''hello'' ''x'' (days_ago 0)), (2, message ''Tax form'' ''y'' (days_ago 1))] 3 =
       Error ''Email #3 not found in the current listing.''"
    using L [THEN conjunct2, THEN conjunct2, THEN conjunct2, THEN mp, OF conjI [OF r t],
        THEN conjunct2] m
    by simp
  have t': "list_all (\<lambda>it. received it \<noteq> None) (Items (Folder ''Inbox'' [] two_messages))"
    using t by (simp add: list_all_iff)
  show ?thesis
    by (intro conjI; (rule s l r t' a b p q)?) (simp add: u)
qed

section \<open>What a search returns\<close>





end
